theory Spec2Isabelle
  imports Main
begin

section \<open>tail: a shallow embedding of src/tail.c\<close>

text \<open>
  Bytes are \<^typ>\<open>char\<close>, buffers and file contents are \<^typ>\<open>char list\<close>.
  Counters of type \<open>uintmax_t\<close> and \<open>size_t\<close> are natural numbers; the places where
  the source relies on, or could reach, the 64-bit range are written out
  (\<open>UINTMAX_MAX\<close> below). System calls are inputs of the model: each function takes the
  results the calls it makes would return.
\<close>

subsection \<open>Constants of the C library\<close>

definition UINTMAX_MAX :: nat where
  "UINTMAX_MAX = 2 ^ 64 - 1"

definition COPY_TO_EOF :: nat where
  "COPY_TO_EOF = UINTMAX_MAX"

definition COPY_A_BUFFER :: nat where
  "COPY_A_BUFFER = UINTMAX_MAX - 1"

definition EPERM :: int where "EPERM = 1"
definition ENOENT :: int where "ENOENT = 2"
definition ESRCH :: int where "ESRCH = 3"
definition EIO :: int where "EIO = 5"
definition EBADF :: int where "EBADF = 9"
definition EAGAIN :: int where "EAGAIN = 11"
definition EACCES :: int where "EACCES = 13"

definition STDIN_FILENO :: int where "STDIN_FILENO = 0"

subsection \<open>Descriptors, reads and writes\<close>

type_synonym bytes = "char list"

text \<open>
  What the successive reads of a descriptor return. \<open>Data bs\<close> is a burst of bytes that
  is available: a read of \<open>n\<close> bytes takes at most \<open>n\<close> of them and leaves the rest for
  the next read; \<open>Data []\<close> is a read that returns 0. \<open>Fail e\<close> is a read that fails
  with \<open>errno = e\<close>. Once the list is used up every read returns 0 (end of file).
\<close>

datatype rd_event = Data bytes | Fail int

type_synonym stream = "rd_event list"

text \<open>\<open>safe_read (fd, buf, n)\<close>: the error or the bytes read, and what is left to read.\<close>

fun safe_read :: "stream \<Rightarrow> nat \<Rightarrow> (int + bytes) \<times> stream" where
  "safe_read [] n = (Inr [], [])"
| "safe_read (Fail e # s) n = (Inl e, s)"
| "safe_read (Data bs # s) n =
     (if length bs \<le> n then (Inr bs, s) else (Inr (take n bs), Data (drop n bs) # s))"

text \<open>
  A regular file with contents \<open>content\<close>, positioned at offset \<open>pos\<close>, read
  sequentially: every read returns the bytes asked for, up to the end of the file.
\<close>

definition reg_stream :: "bytes \<Rightarrow> nat \<Rightarrow> stream" where
  "reg_stream content pos = (if pos < length content then [Data (drop pos content)] else [])"

text \<open>
  A diagnostic of \<open>error (status, errnum, format, ...)\<close>: the error number and the
  message. A function that can leave through \<open>error (EXIT_FAILURE, ...)\<close> returns an
  \<open>outcome\<close>: the fatal diagnostic with the bytes written to standard output until then,
  or its result. \<open>Abort\<close> is a failed \<open>affirm\<close>; \<open>Undefined\<close> stands where the C
  program would leave defined behaviour (a null pointer followed, a read outside the
  bytes of a buffer, a division by zero). Standard output accepts every write
  (\<open>xwrite_stdout\<close> does not fail).
\<close>

datatype diag = Diag int string

datatype 'a outcome = Exit_failure diag bytes | Abort | Undefined | Return 'a

text \<open>\<open>write_header\<close>: the bytes written, given the static flag \<open>first_file\<close>.\<close>

definition write_header :: "bool \<Rightarrow> string \<Rightarrow> bytes" where
  "write_header first_file pretty_filename =
     (if first_file then [] else [CHR 0x0A]) @ ''==> '' @ pretty_filename @ '' <=='' @ [CHR 0x0A]"

fun stream_size :: "stream \<Rightarrow> nat" where
  "stream_size [] = 0"
| "stream_size (Fail e # s) = Suc (stream_size s)"
| "stream_size (Data bs # s) = Suc (length bs + stream_size s)"

lemma safe_read_smaller:
  "safe_read s n = (Inr buf, s') \<Longrightarrow> buf \<noteq> [] \<Longrightarrow> stream_size s' < stream_size s"
  by (cases s rule: stream_size.cases) (auto split: if_splits)

lemma safe_read_length: "safe_read s n = (Inr buf, s') \<Longrightarrow> length buf \<le> n"
  by (cases s rule: stream_size.cases) (auto split: if_splits)

lemma safe_read_pos: "safe_read s n = (Inr buf, s') \<Longrightarrow> buf \<noteq> [] \<Longrightarrow> 0 < n"
  using safe_read_length [of s n buf s'] by (cases buf) auto

text \<open>
  The loop of \<open>dump_remainder\<close>. \<open>B\<close> is \<open>BUFSIZ\<close>, a constant of \<open>stdio.h\<close>. The state
  of the loop is the static \<open>first_file\<close>, \<open>want_header\<close>, the descriptor, \<open>n_remaining\<close>,
  \<open>n_written\<close> and the bytes written so far. A read error other than \<open>EAGAIN\<close> leaves
  through \<open>error (EXIT_FAILURE, errno, "error reading %s")\<close>.
\<close>

function dump_remainder_loop ::
  "nat \<Rightarrow> string \<Rightarrow> nat \<Rightarrow> bool \<Rightarrow> bool \<Rightarrow> stream \<Rightarrow> nat \<Rightarrow> nat \<Rightarrow> bytes
     \<Rightarrow> (nat \<times> bytes \<times> stream \<times> bool) outcome" where
  "dump_remainder_loop B pretty_filename n_bytes first_file want_header s n_remaining n_written out =
     (case safe_read s (min n_remaining B) of
        (Inl e, s') \<Rightarrow>
          if e \<noteq> EAGAIN
          then Exit_failure (Diag e (''error reading '' @ pretty_filename)) out
          else Return (n_written, out, s', first_file)
      | (Inr buffer, s') \<Rightarrow>
          if buffer = [] then Return (n_written, out, s', first_file)
          else
            let out1 = (if want_header then out @ write_header first_file pretty_filename else out);
                first_file1 = (if want_header then False else first_file);
                out2 = out1 @ buffer;
                n_written1 = n_written + length buffer
            in
              if n_bytes \<noteq> COPY_TO_EOF then
                (if n_remaining - length buffer = 0 \<or> n_bytes = COPY_A_BUFFER
                 then Return (n_written1, out2, s', first_file1)
                 else dump_remainder_loop B pretty_filename n_bytes first_file1 False s'
                        (n_remaining - length buffer) n_written1 out2)
              else dump_remainder_loop B pretty_filename n_bytes first_file1 False s'
                     n_remaining n_written1 out2)"
  by pat_completeness auto
termination
  by (relation "measure (\<lambda>(B, nm, nb, ff, wh, s, nr, nw, out). stream_size s)")
     (auto dest: safe_read_smaller [OF sym])

declare dump_remainder_loop.simps [simp del]

text \<open>
  \<open>dump_remainder\<close>: the bytes it adds to standard output \<open>out\<close>; it returns the number
  of bytes read, the output, the rest of the descriptor and \<open>first_file\<close>.
\<close>

definition dump_remainder ::
  "nat \<Rightarrow> bool \<Rightarrow> bool \<Rightarrow> string \<Rightarrow> stream \<Rightarrow> nat \<Rightarrow> bytes
     \<Rightarrow> (nat \<times> bytes \<times> stream \<times> bool) outcome" where
  "dump_remainder B first_file want_header pretty_filename s n_bytes out =
     dump_remainder_loop B pretty_filename n_bytes first_file want_header s n_bytes 0 out"

subsection \<open>Skipping from the start: \<open>start_bytes\<close> and \<open>start_lines\<close>\<close>

text \<open>
  \<open>start_bytes\<close> returns 1 on error, 0 if ok, -1 at end of file; with it the rest of
  the descriptor, \<open>*read_pos\<close>, standard output and the diagnostics.
\<close>

function start_bytes ::
  "nat \<Rightarrow> string \<Rightarrow> stream \<Rightarrow> nat \<Rightarrow> nat \<Rightarrow> bytes \<Rightarrow> int \<times> stream \<times> nat \<times> bytes \<times> diag list" where
  "start_bytes B pretty_filename s n_bytes read_pos out =
     (if 0 < n_bytes then
        (case safe_read s B of
           (Inr buf, s') \<Rightarrow>
             if buf = [] then (- 1, s', read_pos, out, [])
             else if length buf \<le> n_bytes
               then start_bytes B pretty_filename s' (n_bytes - length buf) (read_pos + length buf) out
               else (0, s', read_pos + length buf, out @ drop n_bytes buf, [])
         | (Inl e, s') \<Rightarrow> (1, s', read_pos, out, [Diag e (''error reading '' @ pretty_filename)]))
      else (0, s, read_pos, out, []))"
  by pat_completeness auto
termination
  by (relation "measure (\<lambda>(B, nm, s, n, rp, out). stream_size s)")
     (auto dest: safe_read_smaller [OF sym])

declare start_bytes.simps [simp del]

text \<open>\<open>memchr (p, c, len)\<close> on the \<open>len\<close> bytes \<open>p\<close>: the index of the first \<open>c\<close>.\<close>

fun memchr :: "bytes \<Rightarrow> char \<Rightarrow> nat option" where
  "memchr [] c = None"
| "memchr (b # bs) c = (if b = c then Some 0 else map_option Suc (memchr bs c))"

lemma memchr_less: "memchr p c = Some i \<Longrightarrow> i < length p"
  by (induction p arbitrary: i) (auto split: if_splits)

text \<open>
  The inner \<open>while\<close> of \<open>start_lines\<close> over the bytes from \<open>p\<close> to \<open>buffer_end\<close>:
  \<open>Inl rest\<close> when \<open>--n_lines\<close> reached 0 (\<open>rest\<close> are the bytes after that delimiter),
  \<open>Inr n_lines\<close> when the buffer has no further delimiter. \<open>--n_lines\<close> on 0 wraps.
\<close>

function start_lines_scan :: "char \<Rightarrow> bytes \<Rightarrow> nat \<Rightarrow> bytes + nat" where
  "start_lines_scan line_end p n_lines =
     (case memchr p line_end of
        None \<Rightarrow> Inr n_lines
      | Some i \<Rightarrow>
          let p' = drop (Suc i) p;
              n_lines' = (if n_lines = 0 then UINTMAX_MAX else n_lines - 1)
          in if n_lines' = 0 then Inl p' else start_lines_scan line_end p' n_lines')"
  by pat_completeness auto
termination
  by (relation "measure (\<lambda>(d, p, n). length p)") (auto dest: memchr_less)

declare start_lines_scan.simps [simp del]

function start_lines_loop ::
  "nat \<Rightarrow> string \<Rightarrow> char \<Rightarrow> stream \<Rightarrow> nat \<Rightarrow> nat \<Rightarrow> bytes
     \<Rightarrow> int \<times> stream \<times> nat \<times> bytes \<times> diag list" where
  "start_lines_loop B pretty_filename line_end s n_lines read_pos out =
     (case safe_read s B of
        (Inr buf, s') \<Rightarrow>
          if buf = [] then (- 1, s', read_pos, out, [])
          else
            (case start_lines_scan line_end buf n_lines of
               Inl rest \<Rightarrow> (0, s', read_pos + length buf, out @ rest, [])
             | Inr n_lines' \<Rightarrow>
                 start_lines_loop B pretty_filename line_end s' n_lines' (read_pos + length buf) out)
      | (Inl e, s') \<Rightarrow> (1, s', read_pos, out, [Diag e (''error reading '' @ pretty_filename)]))"
  by pat_completeness auto
termination
  by (relation "measure (\<lambda>(B, nm, d, s, n, rp, out). stream_size s)")
     (auto dest: safe_read_smaller [OF sym])

declare start_lines_loop.simps [simp del]

definition start_lines ::
  "nat \<Rightarrow> string \<Rightarrow> char \<Rightarrow> stream \<Rightarrow> nat \<Rightarrow> nat \<Rightarrow> bytes
     \<Rightarrow> int \<times> stream \<times> nat \<times> bytes \<times> diag list" where
  "start_lines B pretty_filename line_end s n_lines read_pos out =
     (if n_lines = 0 then (0, s, read_pos, out, [])
      else start_lines_loop B pretty_filename line_end s n_lines read_pos out)"

subsection \<open>The ring of buffers: \<open>pipe_lines\<close> and \<open>pipe_bytes\<close>\<close>

text \<open>
  An \<open>LBUFFER\<close>: \<open>buffer\<close> holds the first \<open>nbytes\<close> bytes of the array (so \<open>nbytes\<close> is
  its length), \<open>nlines\<close> the count kept beside it. The linked list from \<open>first\<close> to
  \<open>last\<close> is the list \<open>front @ [lst]\<close>: \<open>lst\<close> is the buffer \<open>last\<close> points to, \<open>first\<close>
  is the head of the list. \<open>tmp\<close> is the buffer the next read fills.
\<close>

record linebuffer =
  buffer :: bytes
  nlines :: nat

text \<open>The loop that counts the delimiters of the buffer just read.\<close>

function count_newlines :: "char \<Rightarrow> bytes \<Rightarrow> nat \<Rightarrow> nat" where
  "count_newlines line_end p n =
     (case memchr p line_end of
        None \<Rightarrow> n
      | Some i \<Rightarrow> count_newlines line_end (drop (Suc i) p) (Suc n))"
  by pat_completeness auto
termination
  by (relation "measure (\<lambda>(d, p, n). length p)") (auto dest: memchr_less)

declare count_newlines.simps [simp del]

text \<open>
  One turn of the read loop of \<open>pipe_lines\<close> after a read of the bytes \<open>buf\<close>: the new
  list and \<open>total_lines\<close>.
\<close>

definition pipe_lines_add ::
  "nat \<Rightarrow> char \<Rightarrow> nat \<Rightarrow> linebuffer list \<times> linebuffer \<times> nat \<Rightarrow> bytes
     \<Rightarrow> linebuffer list \<times> linebuffer \<times> nat" where
  "pipe_lines_add B line_end n_lines st buf =
     (case st of (front, lst, total_lines) \<Rightarrow>
        let tmp = \<lparr>buffer = buf, nlines = count_newlines line_end buf 0\<rparr>;
            total_lines1 = total_lines + nlines tmp
        in
          if length (buffer tmp) + length (buffer lst) < B
          then (front,
                \<lparr>buffer = buffer lst @ buffer tmp, nlines = nlines lst + nlines tmp\<rparr>,
                total_lines1)
          else
            let chain = front @ [lst] in
              if total_lines1 - nlines (hd chain) > n_lines
              then (tl chain, tmp, total_lines1 - nlines (hd chain))
              else (chain, tmp, total_lines1))"

text \<open>
  The read loop: it ends on a read that fails (\<open>Inl errno\<close>) or returns 0 (\<open>Inr ()\<close>).
\<close>

function pipe_lines_read ::
  "nat \<Rightarrow> char \<Rightarrow> nat \<Rightarrow> stream \<Rightarrow> linebuffer list \<times> linebuffer \<times> nat \<Rightarrow> nat
     \<Rightarrow> (int + unit) \<times> (linebuffer list \<times> linebuffer \<times> nat) \<times> nat" where
  "pipe_lines_read B line_end n_lines s st read_pos =
     (case safe_read s B of
        (Inl e, s') \<Rightarrow> (Inl e, st, read_pos)
      | (Inr buf, s') \<Rightarrow>
          if buf = [] then (Inr (), st, read_pos)
          else pipe_lines_read B line_end n_lines s'
                 (pipe_lines_add B line_end n_lines st buf) (read_pos + length buf))"
  by pat_completeness auto
termination
  by (relation "measure (\<lambda>(B, d, n, s, st, rp). stream_size s)")
     (auto dest: safe_read_smaller [OF sym])

declare pipe_lines_read.simps [simp del]

text \<open>
  The loop that skips the buffers not needed, from \<open>first\<close>: the buffer it stops at with
  the buffers after it, and \<open>total_lines\<close>; \<open>None\<close> if it runs off the list.
\<close>

fun pipe_lines_skip :: "nat \<Rightarrow> linebuffer list \<Rightarrow> nat \<Rightarrow> (linebuffer list \<times> nat) option" where
  "pipe_lines_skip n_lines [] total_lines = None"
| "pipe_lines_skip n_lines (tmp # rest) total_lines =
     (if total_lines - nlines tmp > n_lines
      then pipe_lines_skip n_lines rest (total_lines - nlines tmp)
      else Some (tmp # rest, total_lines))"

text \<open>
  The loop \<open>for (j = ...; j; --j) { beg = rawmemchr (beg, line_end); ++beg; }\<close> on the
  bytes from \<open>beg\<close> to \<open>buffer_end\<close>; \<open>None\<close> when \<open>rawmemchr\<close> would run past them.
\<close>

fun skip_newlines :: "char \<Rightarrow> bytes \<Rightarrow> nat \<Rightarrow> bytes option" where
  "skip_newlines line_end beg 0 = Some beg"
| "skip_newlines line_end beg (Suc j) =
     (case memchr beg line_end of
        None \<Rightarrow> None
      | Some i \<Rightarrow> skip_newlines line_end (drop (Suc i) beg) j)"

text \<open>
  The test \<open>n_read < 0 && errno != EAGAIN\<close> after the read loop: the error to report.
\<close>

definition read_failed :: "int + unit \<Rightarrow> int option" where
  "read_failed n_read =
     (case n_read of Inl e \<Rightarrow> if e \<noteq> EAGAIN then Some e else None | Inr u \<Rightarrow> None)"

text \<open>\<open>pipe_lines\<close> returns \<open>ok\<close>, standard output, \<open>*read_pos\<close> and the diagnostics.\<close>

definition pipe_lines ::
  "nat \<Rightarrow> string \<Rightarrow> char \<Rightarrow> stream \<Rightarrow> nat \<Rightarrow> nat \<Rightarrow> bytes
     \<Rightarrow> (bool \<times> bytes \<times> nat \<times> diag list) outcome" where
  "pipe_lines B pretty_filename line_end s n_lines read_pos out =
     (case pipe_lines_read B line_end n_lines s ([], \<lparr>buffer = [], nlines = 0\<rparr>, 0) read_pos of
        (n_read, (front, lst, total_lines), read_pos') \<Rightarrow>
          (case read_failed n_read of
            Some e \<Rightarrow>
              Return (False, out, read_pos', [Diag e (''error reading '' @ pretty_filename)])
          | None \<Rightarrow>
              if buffer lst = [] then Return (True, out, read_pos', [])
              else if n_lines = 0 then Return (True, out, read_pos', [])
              else
                let incomplete = (last (buffer lst) \<noteq> line_end);
                    lst1 = (if incomplete then lst\<lparr>nlines := nlines lst + 1\<rparr> else lst);
                    total_lines1 = (if incomplete then total_lines + 1 else total_lines)
                in
                  (case pipe_lines_skip n_lines (front @ [lst1]) total_lines1 of
                     None \<Rightarrow> Undefined
                   | Some ([], total_lines2) \<Rightarrow> Undefined
                   | Some (tmp # rest, total_lines2) \<Rightarrow>
                       (case (if total_lines2 > n_lines
                              then skip_newlines line_end (buffer tmp) (total_lines2 - n_lines)
                              else Some (buffer tmp)) of
                          None \<Rightarrow> Undefined
                        | Some beg \<Rightarrow>
                            Return (True, out @ beg @ concat (map buffer rest), read_pos', [])))))"

text \<open>
  \<open>pipe_bytes\<close>: a \<open>CBUFFER\<close> is the list of its first \<open>nbytes\<close> bytes; the linked list
  is \<open>front @ [lst]\<close> as above.
\<close>

definition pipe_bytes_add ::
  "nat \<Rightarrow> nat \<Rightarrow> bytes list \<times> bytes \<times> nat \<Rightarrow> bytes \<Rightarrow> bytes list \<times> bytes \<times> nat" where
  "pipe_bytes_add B n_bytes st buf =
     (case st of (front, lst, total_bytes) \<Rightarrow>
        let total_bytes1 = total_bytes + length buf in
          if length buf + length lst < B
          then (front, lst @ buf, total_bytes1)
          else
            let chain = front @ [lst] in
              if total_bytes1 - length (hd chain) > n_bytes
              then (tl chain, buf, total_bytes1 - length (hd chain))
              else (chain, buf, total_bytes1))"

function pipe_bytes_read ::
  "nat \<Rightarrow> nat \<Rightarrow> stream \<Rightarrow> bytes list \<times> bytes \<times> nat \<Rightarrow> nat
     \<Rightarrow> (int + unit) \<times> (bytes list \<times> bytes \<times> nat) \<times> nat" where
  "pipe_bytes_read B n_bytes s st read_pos =
     (case safe_read s B of
        (Inl e, s') \<Rightarrow> (Inl e, st, read_pos)
      | (Inr buf, s') \<Rightarrow>
          if buf = [] then (Inr (), st, read_pos)
          else pipe_bytes_read B n_bytes s' (pipe_bytes_add B n_bytes st buf) (read_pos + length buf))"
  by pat_completeness auto
termination
  by (relation "measure (\<lambda>(B, n, s, st, rp). stream_size s)")
     (auto dest: safe_read_smaller [OF sym])

declare pipe_bytes_read.simps [simp del]

fun pipe_bytes_skip :: "nat \<Rightarrow> bytes list \<Rightarrow> nat \<Rightarrow> (bytes list \<times> nat) option" where
  "pipe_bytes_skip n_bytes [] total_bytes = None"
| "pipe_bytes_skip n_bytes (tmp # rest) total_bytes =
     (if total_bytes - length tmp > n_bytes
      then pipe_bytes_skip n_bytes rest (total_bytes - length tmp)
      else Some (tmp # rest, total_bytes))"

definition pipe_bytes ::
  "nat \<Rightarrow> string \<Rightarrow> stream \<Rightarrow> nat \<Rightarrow> nat \<Rightarrow> bytes
     \<Rightarrow> (bool \<times> bytes \<times> nat \<times> diag list) outcome" where
  "pipe_bytes B pretty_filename s n_bytes read_pos out =
     (case pipe_bytes_read B n_bytes s ([], [], 0) read_pos of
        (n_read, (front, lst, total_bytes), read_pos') \<Rightarrow>
          (case read_failed n_read of
            Some e \<Rightarrow>
              Return (False, out, read_pos', [Diag e (''error reading '' @ pretty_filename)])
          | None \<Rightarrow>
              (case pipe_bytes_skip n_bytes (front @ [lst]) total_bytes of
                 None \<Rightarrow> Undefined
               | Some ([], total_bytes2) \<Rightarrow> Undefined
               | Some (tmp # rest, total_bytes2) \<Rightarrow>
                   let i = (if total_bytes2 > n_bytes then total_bytes2 - n_bytes else 0) in
                     if i > length tmp then Undefined
                     else Return (True, out @ drop i tmp @ concat rest, read_pos', []))))"

text \<open>
  The states of the read loop of \<open>pipe_bytes\<close> at the end of each iteration: the list
  from \<open>first\<close> to \<open>last\<close> and \<open>total_bytes\<close>.
\<close>

function pipe_bytes_states ::
  "nat \<Rightarrow> nat \<Rightarrow> stream \<Rightarrow> bytes list \<times> bytes \<times> nat \<Rightarrow> (bytes list \<times> bytes \<times> nat) list" where
  "pipe_bytes_states B n_bytes s st =
     (case safe_read s B of
        (Inl e, s') \<Rightarrow> []
      | (Inr buf, s') \<Rightarrow>
          if buf = [] then []
          else pipe_bytes_add B n_bytes st buf #
               pipe_bytes_states B n_bytes s' (pipe_bytes_add B n_bytes st buf))"
  by pat_completeness auto
termination
  by (relation "measure (\<lambda>(B, n, s, st). stream_size s)")
     (auto dest: safe_read_smaller [OF sym])

declare pipe_bytes_states.simps [simp del]

text \<open>The same for \<open>pipe_lines\<close>: the list and \<open>total_lines\<close>.\<close>

function pipe_lines_states ::
  "nat \<Rightarrow> char \<Rightarrow> nat \<Rightarrow> stream \<Rightarrow> linebuffer list \<times> linebuffer \<times> nat
     \<Rightarrow> (linebuffer list \<times> linebuffer \<times> nat) list" where
  "pipe_lines_states B line_end n_lines s st =
     (case safe_read s B of
        (Inl e, s') \<Rightarrow> []
      | (Inr buf, s') \<Rightarrow>
          if buf = [] then []
          else pipe_lines_add B line_end n_lines st buf #
               pipe_lines_states B line_end n_lines s' (pipe_lines_add B line_end n_lines st buf))"
  by pat_completeness auto
termination
  by (relation "measure (\<lambda>(B, d, n, s, st). stream_size s)")
     (auto dest: safe_read_smaller [OF sym])

declare pipe_lines_states.simps [simp del]

subsection \<open>File status and positioning\<close>

datatype file_type = S_IFREG | S_IFIFO | S_IFSOCK | S_IFCHR | S_IFDIR | S_IFBLK | S_IFLNK

text \<open>A \<open>mode_t\<close>: the file type and the permission bits.\<close>

type_synonym mode_t = "file_type \<times> nat"

record stat =
  st_dev :: nat
  st_ino :: nat
  st_mode :: mode_t
  st_size :: int
  st_blksize :: int
  st_mtime :: "int \<times> int"

definition S_ISREG :: "mode_t \<Rightarrow> bool" where "S_ISREG m = (fst m = S_IFREG)"
definition S_ISFIFO :: "mode_t \<Rightarrow> bool" where "S_ISFIFO m = (fst m = S_IFIFO)"
definition S_ISSOCK :: "mode_t \<Rightarrow> bool" where "S_ISSOCK m = (fst m = S_IFSOCK)"
definition S_ISCHR :: "mode_t \<Rightarrow> bool" where "S_ISCHR m = (fst m = S_IFCHR)"
definition S_ISLNK :: "mode_t \<Rightarrow> bool" where "S_ISLNK m = (fst m = S_IFLNK)"

definition IS_TAILABLE_FILE_TYPE :: "mode_t \<Rightarrow> bool" where
  "IS_TAILABLE_FILE_TYPE m = (S_ISREG m \<or> S_ISFIFO m \<or> S_ISSOCK m \<or> S_ISCHR m)"

definition OFF_T_MAX :: nat where
  "OFF_T_MAX = 2 ^ 63 - 1"

definition EINVAL :: int where "EINVAL = 22"
definition ESPIPE :: int where "ESPIPE = 29"

text \<open>
  An open descriptor: a seekable file with its contents and offset, or a descriptor
  that cannot seek (pipe, FIFO, socket, terminal) with what its reads return.
\<close>

datatype fdesc = Regular bytes nat | Pipe stream

datatype whence = SEEK_SET | SEEK_CUR | SEEK_END

text \<open>
  \<open>lseek\<close>: the new offset or \<open>Inl errno\<close>, and the descriptor. The largest offset of
  the file system is not part of the model: a seekable file accepts every offset that is
  not negative. A result below that depends on a seek to another offset than one within
  the file has the success of the seek as a hypothesis.
\<close>

fun lseek :: "fdesc \<Rightarrow> int \<Rightarrow> whence \<Rightarrow> (int + nat) \<times> fdesc" where
  "lseek (Pipe s) offset w = (Inl ESPIPE, Pipe s)"
| "lseek (Regular content pos) offset w =
     (let base = (case w of SEEK_SET \<Rightarrow> 0 | SEEK_CUR \<Rightarrow> int pos | SEEK_END \<Rightarrow> int (length content));
          new_offset = base + offset
      in if new_offset < 0 then (Inl EINVAL, Regular content pos)
         else (Inr (nat new_offset), Regular content (nat new_offset)))"

text \<open>What sequential reads of the descriptor return, from where it stands.\<close>

fun fd_stream :: "fdesc \<Rightarrow> stream" where
  "fd_stream (Regular content pos) = reg_stream content pos"
| "fd_stream (Pipe s) = s"

text \<open>
  The diagnostic of a failed \<open>xlseek\<close> (the offset it prints is left out of the text).
\<close>

definition xlseek_diag :: "int \<Rightarrow> whence \<Rightarrow> string \<Rightarrow> diag" where
  "xlseek_diag e w filename =
     Diag e (filename @ (case w of
        SEEK_SET \<Rightarrow> '': cannot seek to offset''
      | SEEK_CUR \<Rightarrow> '': cannot seek to relative offset''
      | SEEK_END \<Rightarrow> '': cannot seek to end-relative offset''))"

subsection \<open>The backward scan: \<open>file_lines\<close>\<close>

text \<open>
  \<open>memrchr (buffer, c, n)\<close>: the index of the last \<open>c\<close> among the first \<open>n\<close> bytes.
\<close>

fun memrchr :: "bytes \<Rightarrow> char \<Rightarrow> nat \<Rightarrow> nat option" where
  "memrchr buf c 0 = None"
| "memrchr buf c (Suc n) = (if n < length buf \<and> buf ! n = c then Some n else memrchr buf c n)"

lemma memrchr_less: "memrchr buf c n = Some i \<Longrightarrow> i < n"
  by (induction n) (auto split: if_splits)

text \<open>
  The inner \<open>while (n)\<close> of \<open>file_lines\<close> on one buffer: \<open>Inl n\<close> when the test
  \<open>n_lines-- == 0\<close> succeeds at the delimiter of index \<open>n\<close>; \<open>Inr n_lines\<close> (the count
  left) when the buffer is used up.
\<close>

function file_lines_scan :: "bytes \<Rightarrow> char \<Rightarrow> nat \<Rightarrow> nat \<Rightarrow> nat + nat" where
  "file_lines_scan buf line_end n n_lines =
     (if n = 0 then Inr n_lines
      else
        (case memrchr buf line_end n of
           None \<Rightarrow> Inr n_lines
         | Some i \<Rightarrow>
             if n_lines = 0 then Inl i
             else file_lines_scan buf line_end i (n_lines - 1)))"
  by pat_completeness auto
termination
  by (relation "measure (\<lambda>(buf, d, n, nl). n)") (auto dest: memrchr_less)

text \<open>
  The statements \<open>*read_pos = base + dump_remainder (...)\<close> and "return true": the
  result of the caller from that of \<open>dump_remainder\<close>.
\<close>

definition add_dumped ::
  "nat \<Rightarrow> diag list \<Rightarrow> (nat \<times> bytes \<times> stream \<times> bool) outcome
     \<Rightarrow> (bool \<times> bytes \<times> nat \<times> diag list) outcome" where
  "add_dumped base diags r =
     (case r of
        Return (n_written, out, s, first_file) \<Rightarrow> Return (True, out, base + n_written, diags)
      | Exit_failure d out \<Rightarrow> Exit_failure d out
      | Abort \<Rightarrow> Abort
      | Undefined \<Rightarrow> Undefined)"

text \<open>
  The \<open>do ... while (bytes_read > 0)\<close> loop. \<open>content\<close> are the bytes of the regular file
  behind \<open>fd\<close>, \<open>buf\<close> the \<open>bytes_read\<close> bytes read at offset \<open>pos\<close>. Offsets are natural
  numbers; where the source would seek to a negative offset, \<open>xlseek\<close> fails with
  \<open>EINVAL\<close> and the program exits.
\<close>

function file_lines_loop ::
  "nat \<Rightarrow> nat \<Rightarrow> string \<Rightarrow> char \<Rightarrow> bytes \<Rightarrow> nat \<Rightarrow> nat \<Rightarrow> nat \<Rightarrow> bytes \<Rightarrow> nat \<Rightarrow> nat \<Rightarrow> bytes
     \<Rightarrow> (bool \<times> bytes \<times> nat \<times> diag list) outcome" where
  "file_lines_loop B bufsize pretty_filename line_end content start_pos end_pos pos buf
       n_lines read_pos out =
     (case file_lines_scan buf line_end (length buf) n_lines of
        Inl n \<Rightarrow>
          add_dumped read_pos []
            (dump_remainder B False False pretty_filename
               (reg_stream content (pos + length buf)) (end_pos - (pos + length buf))
               (out @ drop (n + 1) buf))
      | Inr n_lines' \<Rightarrow>
          if pos = start_pos then
            add_dumped start_pos []
              (dump_remainder B False False pretty_filename
                 (reg_stream content start_pos) end_pos out)
          else if pos < bufsize then Exit_failure (xlseek_diag EINVAL SEEK_SET pretty_filename) out
          else
            (case safe_read (reg_stream content (pos - bufsize)) bufsize of
               (Inl e, s') \<Rightarrow>
                 Return (False, out, read_pos, [Diag e (''error reading '' @ pretty_filename)])
             | (Inr buf', s') \<Rightarrow>
                 if buf' = [] then Return (True, out, pos - bufsize, [])
                 else file_lines_loop B bufsize pretty_filename line_end content start_pos end_pos
                        (pos - bufsize) buf' n_lines' (pos - bufsize + length buf') out))"
  by pat_completeness auto
termination
  by (relation "measure (\<lambda>(B, bufsize, nm, d, content, sp, ep, pos, buf, nl, rp, out). pos)")
     (auto dest!: safe_read_pos [OF sym] simp del: file_lines_scan.simps)

declare file_lines_scan.simps [simp del]
declare file_lines_loop.simps [simp del]

text \<open>
  \<open>file_lines\<close>. \<open>sb\<close> is the status the caller got from \<open>fstat\<close>, \<open>pagesize\<close> the global
  \<open>page_size\<close>. The remainders by \<open>page_size\<close> and \<open>bufsize\<close> are undefined for a zero
  divisor; the caller passes \<open>start_pos < end_pos\<close>.
\<close>

definition file_lines ::
  "nat \<Rightarrow> nat \<Rightarrow> string \<Rightarrow> char \<Rightarrow> bytes \<Rightarrow> stat \<Rightarrow> nat \<Rightarrow> nat \<Rightarrow> nat \<Rightarrow> nat \<Rightarrow> bytes
     \<Rightarrow> (bool \<times> bytes \<times> nat \<times> diag list) outcome" where
  "file_lines B pagesize pretty_filename line_end content sb n_lines start_pos end_pos
       read_pos out =
     (if n_lines = 0 then Return (True, out, read_pos, [])
      else if \<not> S_ISREG (st_mode sb) then Abort
      else if pagesize = 0 then Undefined
      else
        let bufsize = (if st_size sb mod int pagesize = 0 then max B pagesize else B) in
          if bufsize = 0 \<or> end_pos < start_pos then Undefined
          else
            let bytes_read = (if (end_pos - start_pos) mod bufsize = 0 then bufsize
                              else (end_pos - start_pos) mod bufsize)
            in
              if end_pos < bytes_read
              then Exit_failure (xlseek_diag EINVAL SEEK_SET pretty_filename) out
              else
                let pos = end_pos - bytes_read in
                  (case safe_read (reg_stream content pos) bytes_read of
                     (Inl e, s') \<Rightarrow>
                       Return (False, out, read_pos,
                               [Diag e (''error reading '' @ pretty_filename)])
                   | (Inr buf, s') \<Rightarrow>
                       let n_lines1 = (if buf \<noteq> [] \<and> last buf \<noteq> line_end
                                       then n_lines - 1 else n_lines)
                       in file_lines_loop B bufsize pretty_filename line_end content start_pos
                            end_pos pos buf n_lines1 (pos + length buf) out))"

subsection \<open>The globals and the end-printers \<open>tail_bytes\<close>, \<open>tail_lines\<close>, \<open>tail\<close>\<close>

datatype Follow_mode = Follow_name | Follow_descriptor

text \<open>The static variables of the program that the functions below read.\<close>

record globals =
  reopen_inaccessible_files :: bool
  count_lines :: bool
  follow_mode :: Follow_mode
  forever :: bool
  from_start :: bool
  print_headers :: bool
  line_end :: char
  max_n_unchanged_stats_between_opens :: nat
  nbpids :: nat
  page_size :: nat
  presume_input_pipe :: bool
  disable_inotify :: bool

text \<open>
  Modelled from the spec: the macros \<open>usable_st_size\<close> and \<open>STP_BLKSIZE\<close> of the
  headers \<open>stat-size.h\<close> and \<open>system.h\<close> are not in the source file. The specification
  speaks of a "regular file with a usable size"; the block size is the field
  \<open>st_blksize\<close>.
\<close>

definition usable_st_size :: "stat \<Rightarrow> bool" where
  "usable_st_size sb = S_ISREG (st_mode sb)"

definition STP_BLKSIZE :: "stat \<Rightarrow> int" where
  "STP_BLKSIZE sb = st_blksize sb"

fun fd_content :: "fdesc \<Rightarrow> bytes" where
  "fd_content (Regular content pos) = content"
| "fd_content (Pipe s) = []"

text \<open>
  \<open>tail_bytes\<close>. \<open>fstat_res\<close> is what \<open>fstat (fd, &stats)\<close> gives: \<open>Inl errno\<close> or the
  status. The result is \<open>ok\<close>, standard output, \<open>*read_pos\<close> and the diagnostics.
\<close>

definition tail_bytes ::
  "nat \<Rightarrow> globals \<Rightarrow> string \<Rightarrow> int + stat \<Rightarrow> fdesc \<Rightarrow> nat \<Rightarrow> nat \<Rightarrow> bytes
     \<Rightarrow> (bool \<times> bytes \<times> nat \<times> diag list) outcome" where
  "tail_bytes B g pretty_filename fstat_res fdsc n_bytes read_pos out =
     (case fstat_res of
        Inl e \<Rightarrow> Return (False, out, read_pos, [Diag e (''cannot fstat '' @ pretty_filename)])
      | Inr stats \<Rightarrow>
          if from_start g then
            (case (if \<not> presume_input_pipe g \<and> n_bytes \<le> OFF_T_MAX
                   then (case lseek fdsc (int n_bytes) SEEK_CUR of
                           (Inr p, fdsc') \<Rightarrow> Inr (Some fdsc')
                         | (Inl e, fdsc') \<Rightarrow>
                             if S_ISREG (st_mode stats) then Inl e else Inr None)
                   else Inr None) of
               Inl e \<Rightarrow> Exit_failure (xlseek_diag e SEEK_CUR pretty_filename) out
             | Inr (Some fdsc') \<Rightarrow>
                 add_dumped (read_pos + n_bytes) []
                   (dump_remainder B False False pretty_filename (fd_stream fdsc') COPY_TO_EOF out)
             | Inr None \<Rightarrow>
                 (case start_bytes B pretty_filename (fd_stream fdsc) n_bytes read_pos out of
                    (t, s', read_pos', out', diags) \<Rightarrow>
                      if t \<noteq> 0 then Return (t < 0, out', read_pos', diags)
                      else add_dumped read_pos' diags
                             (dump_remainder B False False pretty_filename s' COPY_TO_EOF out')))
          else
            (case (if \<not> presume_input_pipe g \<and> n_bytes \<le> OFF_T_MAX then
                     (if usable_st_size stats
                      then (STP_BLKSIZE stats < st_size stats, st_size stats, - 1, fdsc)
                      else (case lseek fdsc (- int n_bytes) SEEK_END of
                              (Inr p, fdsc') \<Rightarrow> (True, int p + int n_bytes, int p, fdsc')
                            | (Inl e, fdsc') \<Rightarrow> (False, - 1, - 1, fdsc')))
                   else (False, - 1, - 1, fdsc)) of
               (copy_from_current_pos, end_pos, current_pos, fdsc1) \<Rightarrow>
                 if \<not> copy_from_current_pos
                 then pipe_bytes B pretty_filename (fd_stream fdsc1) n_bytes read_pos out
                 else
                   (case (if current_pos = - 1
                          then (case lseek fdsc1 0 SEEK_CUR of
                                  (Inr p, fdsc2) \<Rightarrow> Inr (int p, fdsc2)
                                | (Inl e, fdsc2) \<Rightarrow> Inl (xlseek_diag e SEEK_CUR pretty_filename))
                          else Inr (current_pos, fdsc1)) of
                      Inl dg \<Rightarrow> Exit_failure dg out
                    | Inr (current_pos1, fdsc2) \<Rightarrow>
                        (case (if current_pos1 < end_pos \<and> int n_bytes < end_pos - current_pos1
                               then (case lseek fdsc2 (end_pos - int n_bytes) SEEK_SET of
                                       (Inr p, fdsc3) \<Rightarrow> Inr (end_pos - int n_bytes, fdsc3)
                                     | (Inl e, fdsc3) \<Rightarrow>
                                         Inl (xlseek_diag e SEEK_SET pretty_filename))
                               else Inr (current_pos1, fdsc2)) of
                           Inl dg \<Rightarrow> Exit_failure dg out
                         | Inr (current_pos2, fdsc3) \<Rightarrow>
                             add_dumped (nat current_pos2) []
                               (dump_remainder B False False pretty_filename (fd_stream fdsc3)
                                  n_bytes out)))))"

text \<open>
  \<open>tail_lines\<close>. The call \<open>lseek (fd, SEEK_END, 0)\<close> of the source passes \<open>SEEK_END\<close>
  (the number 2) as the offset and 0 (\<open>SEEK_SET\<close>) as \<open>whence\<close>.
\<close>

definition tail_lines ::
  "nat \<Rightarrow> globals \<Rightarrow> string \<Rightarrow> int + stat \<Rightarrow> fdesc \<Rightarrow> nat \<Rightarrow> nat \<Rightarrow> bytes
     \<Rightarrow> (bool \<times> bytes \<times> nat \<times> diag list) outcome" where
  "tail_lines B g pretty_filename fstat_res fdsc n_lines read_pos out =
     (case fstat_res of
        Inl e \<Rightarrow> Return (False, out, read_pos, [Diag e (''cannot fstat '' @ pretty_filename)])
      | Inr stats \<Rightarrow>
          if from_start g then
            (case (if n_lines = UINTMAX_MAX then fst (lseek fdsc 2 SEEK_SET) else Inl 0) of
               Inr pos \<Rightarrow> Return (True, out, pos, [])
             | Inl e \<Rightarrow>
                 (case start_lines B pretty_filename (line_end g) (fd_stream fdsc) n_lines
                         read_pos out of
                    (t, s', read_pos', out', diags) \<Rightarrow>
                      if t \<noteq> 0 then Return (t < 0, out', read_pos', diags)
                      else add_dumped read_pos' diags
                             (dump_remainder B False False pretty_filename s' COPY_TO_EOF out')))
          else
            (case (if \<not> presume_input_pipe g \<and> S_ISREG (st_mode stats)
                   then lseek fdsc 0 SEEK_CUR else (Inl 0, fdsc)) of
               (Inl e, fdsc1) \<Rightarrow>
                 pipe_lines B pretty_filename (line_end g) (fd_stream fdsc1) n_lines read_pos out
             | (Inr start_pos, fdsc1) \<Rightarrow>
                 (case lseek fdsc1 0 SEEK_END of
                    (end_res, fdsc2) \<Rightarrow>
                      if (case end_res of Inr end_pos \<Rightarrow> start_pos < end_pos | Inl e \<Rightarrow> False)
                      then
                        (case end_res of
                           Inr end_pos \<Rightarrow>
                             if end_pos \<noteq> 0
                             then file_lines B (page_size g) pretty_filename (line_end g)
                                    (fd_content fdsc2) stats n_lines start_pos end_pos end_pos out
                             else Return (True, out, end_pos, [])
                         | Inl e \<Rightarrow> Undefined)
                      else
                        (case lseek fdsc2 (int start_pos) SEEK_SET of
                           (Inl e, fdsc3) \<Rightarrow>
                             Exit_failure (xlseek_diag e SEEK_SET pretty_filename) out
                         | (Inr p, fdsc3) \<Rightarrow>
                             pipe_lines B pretty_filename (line_end g) (fd_stream fdsc3) n_lines
                               read_pos out))))"

text \<open>\<open>tail\<close> sets \<open>*read_pos = 0\<close> and chooses by \<open>count_lines\<close>.\<close>

definition tail ::
  "nat \<Rightarrow> globals \<Rightarrow> string \<Rightarrow> int + stat \<Rightarrow> fdesc \<Rightarrow> nat \<Rightarrow> bytes
     \<Rightarrow> (bool \<times> bytes \<times> nat \<times> diag list) outcome" where
  "tail B g filename fstat_res fdsc n_units out =
     (if count_lines g then tail_lines B g filename fstat_res fdsc n_units 0 out
      else tail_bytes B g filename fstat_res fdsc n_units 0 out)"

subsection \<open>The count of units in \<open>main\<close>\<close>

text \<open>
  The statement \<open>n_units -= from_start && 0 < n_units && n_units < UINTMAX_MAX\<close> of
  \<open>main\<close>: "to start printing with item \<open>N_UNITS\<close> from the start of the file, skip
  \<open>N_UNITS - 1\<close> items".
\<close>

definition adjust_n_units :: "bool \<Rightarrow> nat \<Rightarrow> nat" where
  "adjust_n_units fromstart n_units =
     (if fromstart \<and> 0 < n_units \<and> n_units < UINTMAX_MAX then n_units - 1 else n_units)"

text \<open>Standard output of an outcome.\<close>

fun stdout_of :: "(bool \<times> bytes \<times> nat \<times> diag list) outcome \<Rightarrow> bytes" where
  "stdout_of (Return (ok, out, read_pos, diags)) = out"
| "stdout_of (Exit_failure d out) = out"
| "stdout_of Abort = []"
| "stdout_of Undefined = []"

subsection \<open>Reading a descriptor that gives data until its end\<close>

text \<open>
  The bytes a descriptor holds, and the descriptors whose reads never fail and return 0
  only at the end.
\<close>

fun stream_data :: "stream \<Rightarrow> bytes" where
  "stream_data [] = []"
| "stream_data (Data bs # s) = bs @ stream_data s"
| "stream_data (Fail e # s) = stream_data s"

fun clean :: "stream \<Rightarrow> bool" where
  "clean [] = True"
| "clean (Data bs # s) = (bs \<noteq> [] \<and> clean s)"
| "clean (Fail e # s) = False"

lemma safe_read_clean:
  assumes "clean s" "0 < n" "safe_read s n = (r, s')"
  shows "\<exists>buf. r = Inr buf \<and> clean s' \<and> stream_data s = buf @ stream_data s'
           \<and> (buf = [] \<longleftrightarrow> s = []) \<and> length buf \<le> n"
  using assms by (cases s rule: clean.cases) (auto split: if_splits)

lemma clean_reg_stream [simp]: "clean (reg_stream content pos)"
  by (simp add: reg_stream_def)

lemma stream_data_reg_stream [simp]: "stream_data (reg_stream content pos) = drop pos content"
  by (simp add: reg_stream_def)

lemma dump_to_eof:
  "clean s \<Longrightarrow> 0 < B \<Longrightarrow> nr = COPY_TO_EOF \<Longrightarrow>
   dump_remainder_loop B nm COPY_TO_EOF ff False s nr nw out
     = Return (nw + length (stream_data s), out @ stream_data s, [], ff)"
proof (induction B nm "COPY_TO_EOF" ff False s nr nw out rule: dump_remainder_loop.induct)
  case (1 B nm ff s nr nw out)
  obtain r s' where rd: "safe_read s (min nr B) = (r, s')"
    by (cases "safe_read s (min nr B)")
  have pos: "0 < min nr B"
    using 1 by (simp add: COPY_TO_EOF_def UINTMAX_MAX_def)
  from safe_read_clean [OF \<open>clean s\<close> pos rd] obtain buf where
    b: "r = Inr buf" "clean s'" "stream_data s = buf @ stream_data s'" "buf = [] \<longleftrightarrow> s = []"
    by blast
  show ?case
  proof (cases "buf = []")
    case True
    with b rd show ?thesis
      by (subst dump_remainder_loop.simps) auto
  next
    case False
    have "dump_remainder_loop B nm COPY_TO_EOF ff False s' nr (nw + length buf) (out @ buf)
       = Return (nw + length buf + length (stream_data s'), (out @ buf) @ stream_data s', [], ff)"
      using "1.hyps"(2) [OF rd [symmetric] _ False] b 1
      by (simp add: b)
    with False b rd show ?thesis
      by (subst dump_remainder_loop.simps) (simp add: Let_def)
  qed
qed

lemma start_bytes_clean:
  "clean s \<Longrightarrow> 0 < B \<Longrightarrow> start_bytes B nm s n rp out = (t, s', rp', out', dg) \<Longrightarrow>
     dg = [] \<and> clean s' \<and> (t = 0 \<or> t = - 1 \<and> s' = [])
     \<and> out' @ stream_data s' = out @ drop n (stream_data s)
     \<and> rp' + length (stream_data s') = rp + length (stream_data s)"
proof (induction B nm s n rp out arbitrary: t s' rp' out' dg rule: start_bytes.induct)
  case (1 B nm s n rp out)
  show ?case
  proof (cases "0 < n")
    case False
    with "1.prems" show ?thesis
      by (subst (asm) start_bytes.simps) auto
  next
    case True
    obtain r s1 where rd: "safe_read s B = (r, s1)"
      by (cases "safe_read s B")
    from safe_read_clean [OF "1.prems"(1,2) rd] obtain buf where
      b: "r = Inr buf" "clean s1" "stream_data s = buf @ stream_data s1" "buf = [] \<longleftrightarrow> s = []"
      by blast
    show ?thesis
    proof (cases "buf = []")
      case e: True
      with b rd True "1.prems" show ?thesis
        by (subst (asm) start_bytes.simps) auto
    next
      case ne: False
      show ?thesis
      proof (cases "length buf \<le> n")
        case le: True
        from "1.prems"(3) rd b ne le True
        have "start_bytes B nm s1 (n - length buf) (rp + length buf) out = (t, s', rp', out', dg)"
          by (subst (asm) start_bytes.simps) auto
        from "1.IH" [OF True rd [symmetric] _ ne le b(2) "1.prems"(2) this] b le
        show ?thesis by (auto simp: b)
      next
        case gt: False
        from "1.prems"(3) rd b ne gt True
        have "(t, s', rp', out', dg) = (0, s1, rp + length buf, out @ drop n buf, [])"
          by (subst (asm) start_bytes.simps) auto
        with b gt show ?thesis by auto
      qed
    qed
  qed
qed

subsection \<open>Bytes from the start of a pipe\<close>

lemma tail_bytes_from_start_pipe:
  assumes "clean s" "0 < B" "from_start g" "\<not> S_ISREG (st_mode stats)"
  shows "tail_bytes B g nm (Inr stats) (Pipe s) n rp out
           = Return (True, out @ drop n (stream_data s), rp + length (stream_data s), [])"
proof -
  obtain t s' rp' out' dg where sb: "start_bytes B nm s n rp out = (t, s', rp', out', dg)"
    by (cases "start_bytes B nm s n rp out") auto
  from start_bytes_clean [OF assms(1,2) sb] have
    f: "dg = []" "clean s'" "t = 0 \<or> t = - 1 \<and> s' = []"
       "out' @ stream_data s' = out @ drop n (stream_data s)"
       "rp' + length (stream_data s') = rp + length (stream_data s)"
    by auto
  have "tail_bytes B g nm (Inr stats) (Pipe s) n rp out =
          (if t \<noteq> 0 then Return (t < 0, out', rp', dg)
           else add_dumped rp' dg (dump_remainder B False False nm s' COPY_TO_EOF out'))"
    using assms(3,4) sb by (simp add: tail_bytes_def)
  also have "\<dots> = Return (True, out @ drop n (stream_data s), rp + length (stream_data s), [])"
  proof (cases "t = 0")
    case True
    with f show ?thesis
      by (simp add: dump_remainder_def dump_to_eof [OF f(2) assms(2)] add_dumped_def)
  next
    case False
    with f show ?thesis by auto
  qed
  finally show ?thesis .
qed

lemma tail_bytes_from_start_read:
  assumes "clean (fd_stream fdsc)" "0 < B" "from_start g"
    and "presume_input_pipe g \<or> OFF_T_MAX < n"
  shows "tail_bytes B g nm (Inr stats) fdsc n rp out
           = Return (True, out @ drop n (stream_data (fd_stream fdsc)),
                     rp + length (stream_data (fd_stream fdsc)), [])"
proof -
  obtain t s' rp' out' dg where
    sb: "start_bytes B nm (fd_stream fdsc) n rp out = (t, s', rp', out', dg)"
    by (cases "start_bytes B nm (fd_stream fdsc) n rp out") auto
  from start_bytes_clean [OF assms(1,2) sb] have
    f: "dg = []" "clean s'" "t = 0 \<or> t = - 1 \<and> s' = []"
       "out' @ stream_data s' = out @ drop n (stream_data (fd_stream fdsc))"
       "rp' + length (stream_data s') = rp + length (stream_data (fd_stream fdsc))"
    by auto
  have "tail_bytes B g nm (Inr stats) fdsc n rp out =
          (if t \<noteq> 0 then Return (t < 0, out', rp', dg)
           else add_dumped rp' dg (dump_remainder B False False nm s' COPY_TO_EOF out'))"
    using assms(3,4) sb by (auto simp: tail_bytes_def)
  also have "\<dots> = Return (True, out @ drop n (stream_data (fd_stream fdsc)),
                     rp + length (stream_data (fd_stream fdsc)), [])"
  proof (cases "t = 0")
    case True
    with f show ?thesis
      by (simp add: dump_remainder_def dump_to_eof [OF f(2) assms(2)] add_dumped_def)
  next
    case False
    with f show ?thesis by auto
  qed
  finally show ?thesis .
qed

lemma tail_bytes_from_start_seek:
  assumes "0 < B" "from_start g" "\<not> presume_input_pipe g" "n \<le> OFF_T_MAX"
    and "fst (lseek (Regular content pos) (int n) SEEK_CUR) = Inr (pos + n)"
  shows "tail_bytes B g nm (Inr stats) (Regular content pos) n rp out
           = Return (True, out @ drop n (drop pos content),
                     rp + n + length (drop n (drop pos content)), [])"
proof -
  have cl: "clean (reg_stream content (pos + n))" by simp
  have d: "drop (pos + n) content = drop n (drop pos content)"
    by (simp add: add.commute)
  have l: "lseek (Regular content pos) (int n) SEEK_CUR =
             (Inr (pos + n), Regular content (pos + n))"
    by (simp add: Let_def nat_add_distrib)
  show ?thesis
    using assms(2,3,4) d
    by (simp add: tail_bytes_def l dump_remainder_def dump_to_eof [OF cl assms(1)]
        add_dumped_def del: lseek.simps)
qed

definition pipe_stat :: stat where
  "pipe_stat = \<lparr>st_dev = 0, st_ino = 0, st_mode = (S_IFIFO, 384), st_size = 0,
                st_blksize = 4096, st_mtime = (0, 0)\<rparr>"

definition bytes_plus_globals :: globals where
  "bytes_plus_globals =
     \<lparr>reopen_inaccessible_files = False, count_lines = False, follow_mode = Follow_descriptor,
      forever = False, from_start = True, print_headers = False, line_end = CHR 0x0A,
      max_n_unchanged_stats_between_opens = 5, nbpids = 0, page_size = 4096,
      presume_input_pipe = False, disable_inotify = False\<rparr>"

definition file_stat :: stat where
  "file_stat = \<lparr>st_dev = 1, st_ino = 77, st_mode = (S_IFREG, 420), st_size = 10,
                st_blksize = 4096, st_mtime = (9, 0)\<rparr>"

text \<open>
  C6 (as the code has it). In byte mode with a leading \<open>+\<close>, the number \<open>N\<close> names the
  first byte that is printed, counting from 1: \<open>main\<close> skips \<open>N - 1\<close> bytes from the head
  of the input (no byte for \<open>+0\<close>) and copies the rest to the end of the input. For a pipe
  that delivers its data without error, whatever the sizes of the reads, standard output
  is the input without its first \<open>N - 1\<close> bytes; and so it is for a regular file from its
  current offset, whether the bytes are skipped by reading or by an \<open>lseek\<close> that succeeds.
\<close>

theorem tail_bytes_plus_offset:
  assumes "0 < B" "N < UINTMAX_MAX" "from_start g" "\<not> count_lines g"
  shows "(clean s \<longrightarrow> \<not> S_ISREG (st_mode stats) \<longrightarrow>
            tail B g nm (Inr stats) (Pipe s) (adjust_n_units (from_start g) N) out
              = Return (True, out @ drop (N - 1) (stream_data s), length (stream_data s), [])) \<and>
         (presume_input_pipe g \<or> OFF_T_MAX < N - 1 \<or>
          fst (lseek (Regular content pos) (int (N - 1)) SEEK_CUR) = Inr (pos + (N - 1)) \<longrightarrow>
            tail B g nm (Inr stats) (Regular content pos) (adjust_n_units (from_start g) N) out
              = Return (True, out @ drop (N - 1) (drop pos content),
                        (if \<not> presume_input_pipe g \<and> N - 1 \<le> OFF_T_MAX
                         then N - 1 + length (drop (N - 1) (drop pos content))
                         else length (drop pos content)), []))"
proof (intro conjI impI)
  have a: "adjust_n_units (from_start g) N = N - 1"
    using assms(2,3) by (simp add: adjust_n_units_def)
  {
    assume "clean s" "\<not> S_ISREG (st_mode stats)"
    from tail_bytes_from_start_pipe [OF this(1) assms(1,3) this(2), of nm "N - 1" 0 out] a assms(4)
    show "tail B g nm (Inr stats) (Pipe s) (adjust_n_units (from_start g) N) out
              = Return (True, out @ drop (N - 1) (stream_data s), length (stream_data s), [])"
      by (simp add: tail_def)
  }
  assume h: "presume_input_pipe g \<or> OFF_T_MAX < N - 1 \<or>
          fst (lseek (Regular content pos) (int (N - 1)) SEEK_CUR) = Inr (pos + (N - 1))"
  show "tail B g nm (Inr stats) (Regular content pos) (adjust_n_units (from_start g) N) out
           = Return (True, out @ drop (N - 1) (drop pos content),
               (if \<not> presume_input_pipe g \<and> N - 1 \<le> OFF_T_MAX
                then N - 1 + length (drop (N - 1) (drop pos content))
                else length (drop pos content)), [])"
  proof (cases "\<not> presume_input_pipe g \<and> N - 1 \<le> OFF_T_MAX")
    case True
    then have p: "\<not> presume_input_pipe g" and n: "N - 1 \<le> OFF_T_MAX" by auto
    from h True have
      "fst (lseek (Regular content pos) (int (N - 1)) SEEK_CUR) = Inr (pos + (N - 1))"
      by auto
    from tail_bytes_from_start_seek [OF assms(1,3) p n this, of nm stats 0 out] a assms(4) True
    show ?thesis by (simp add: tail_def del: lseek.simps)
  next
    case False
    then have c: "presume_input_pipe g \<or> OFF_T_MAX < N - 1" by auto
    have cl: "clean (fd_stream (Regular content pos))" by simp
    from tail_bytes_from_start_read [OF cl assms(1,3) c, of nm stats 0 out] a assms(4) False
    show ?thesis by (auto simp: tail_def)
  qed
qed

theorem tail_bytes_plus_offset_witness:
  "tail 4 bytes_plus_globals ''standard input'' (Inr pipe_stat)
      (Pipe [Data ''abc'', Data ''defghij''])
      (adjust_n_units (from_start bytes_plus_globals) 5) []
    = Return (True, ''efghij'', 10, []) \<and>
   tail 4 bytes_plus_globals ''f'' (Inr file_stat) (Regular ''abcdefghij'' 0)
      (adjust_n_units (from_start bytes_plus_globals) 3) []
    = Return (True, ''cdefghij'', 10, [])"
proof -
  have h: "(0::nat) < 4" "(5::nat) < UINTMAX_MAX" "(3::nat) < UINTMAX_MAX"
       "from_start bytes_plus_globals" "\<not> count_lines bytes_plus_globals"
    by (simp_all add: UINTMAX_MAX_def bytes_plus_globals_def)
  have c: "clean [Data ''abc'', Data ''defghij'']" "\<not> S_ISREG (st_mode pipe_stat)"
    by (simp_all add: pipe_stat_def S_ISREG_def)
  have r: "presume_input_pipe bytes_plus_globals \<or> OFF_T_MAX < 3 - 1 \<or>
           fst (lseek (Regular ''abcdefghij'' 0) (int (3 - 1)) SEEK_CUR) = Inr (0 + (3 - 1))"
    by simp
  from tail_bytes_plus_offset [OF h(1,2,4,5), THEN conjunct1, rule_format, OF c,
         of "''standard input''" "[]"]
       tail_bytes_plus_offset [OF h(1,3,4,5), THEN conjunct2, rule_format, OF r,
         of "''f''" file_stat "[]"]
  show ?thesis
    by (simp add: bytes_plus_globals_def OFF_T_MAX_def)
qed

text \<open>
  The scenario of the specification: the pipe holds \<open>abcdefghij\<close> and the option is
  \<open>+3\<close> in byte mode. The program prints from the third byte on, not \<open>defghij\<close>.
\<close>

theorem tail_bytes_plus_offset_counterexample:
  "stdout_of (tail 8192 bytes_plus_globals ''standard input'' (Inr pipe_stat)
                (Pipe [Data ''abcdefghij''])
                (adjust_n_units (from_start bytes_plus_globals) 3) []) = ''cdefghij''
   \<and> stdout_of (tail 8192 bytes_plus_globals ''standard input'' (Inr pipe_stat)
                (Pipe [Data ''abcdefghij''])
                (adjust_n_units (from_start bytes_plus_globals) 3) []) \<noteq> ''defghij''"
  by (simp add: tail_def tail_bytes_def bytes_plus_globals_def pipe_stat_def OFF_T_MAX_def
      S_ISREG_def start_bytes.simps dump_remainder_def dump_remainder_loop.simps add_dumped_def
      COPY_TO_EOF_def UINTMAX_MAX_def EAGAIN_def adjust_n_units_def)

subsection \<open>The target record and \<open>recheck\<close>\<close>

text \<open>
  \<open>struct File_spec\<close>. The field \<open>size\<close> is called \<open>fsize\<close> here; \<open>blocking\<close> is 1, 0 or
  -1 as in the source.
\<close>

record File_spec =
  name :: string
  fsize :: int
  mtime :: "int \<times> int"
  dev :: nat
  ino :: nat
  mode :: mode_t
  ignore :: bool
  remote :: bool
  tailable :: bool
  fd :: int
  errnum :: int
  blocking :: int
  wd :: int
  parent_wd :: int
  basename_start :: nat
  n_unchanged_stats :: nat

text \<open>"Exactly one of the following subexpressions must be true."\<close>

definition valid_file_spec :: "File_spec \<Rightarrow> bool" where
  "valid_file_spec f = ((fd f = - 1) \<noteq> (errnum f = 0))"

definition pretty_name :: "File_spec \<Rightarrow> string" where
  "pretty_name f = (if name f = ''-'' then ''standard input'' else name f)"

definition record_open_fd :: "File_spec \<Rightarrow> int \<Rightarrow> int \<Rightarrow> stat \<Rightarrow> int \<Rightarrow> File_spec" where
  "record_open_fd f nfd sz st blk =
     f\<lparr>fd := nfd, fsize := sz, mtime := st_mtime st, dev := st_dev st, ino := st_ino st,
       mode := st_mode st, blocking := blk, n_unchanged_stats := 0, ignore := False\<rparr>"

text \<open>
  What a function does besides changing the record and writing to standard output:
  a diagnostic on standard error, a descriptor closed, a descriptor positioned with
  \<open>xlseek (fd, offset, SEEK_SET)\<close>.
\<close>

datatype action = Diagnostic diag | Closed int | Positioned int int

text \<open>
  \<open>close_fd\<close>. \<open>close_res\<close> gives what \<open>close\<close> returns for a descriptor: 0, or the
  \<open>errno\<close> of its failure. The text of the diagnostic is \<open>closing %s (fd=%d)\<close> in the
  source; here, as in every diagnostic, the name stands without the quotes of \<open>quoteaf\<close>,
  and the number of the descriptor is left out.
\<close>

definition close_fd :: "(int \<Rightarrow> int) \<Rightarrow> int \<Rightarrow> string \<Rightarrow> action list" where
  "close_fd cl nfd filename =
     (if nfd \<noteq> - 1 \<and> nfd \<noteq> STDIN_FILENO
      then Closed nfd #
             (if cl nfd \<noteq> 0
              then [Diagnostic (Diag (cl nfd) (''closing '' @ filename))] else [])
      else [])"

definition ENOSYS :: int where "ENOSYS = 38"

text \<open>
  \<open>fremote\<close>, as compiled on Linux. The argument is \<open>Inl errno\<close> when \<open>fstatfs\<close> fails,
  else \<open>Inr v\<close> with \<open>v\<close> the value of \<open>is_local_fs_type (buf.f_type)\<close>.
\<close>

definition fremote :: "int + int \<Rightarrow> string \<Rightarrow> bool \<times> action list" where
  "fremote statfs filename =
     (case statfs of
        Inl e \<Rightarrow>
          (True,
           if e \<noteq> ENOSYS
           then [Diagnostic (Diag e (''cannot determine location of '' @ filename
                                       @ ''. reverting to polling''))]
           else [])
      | Inr v \<Rightarrow> (v \<le> 0, []))"

text \<open>
  The system calls of one call of \<open>recheck\<close>: \<open>errno\<close> on entry, \<open>open\<close> of the name
  (\<open>Inl errno\<close> or the new descriptor), \<open>lstat\<close> of the name, \<open>fstat\<close> of the new
  descriptor, \<open>fstatfs\<close> for \<open>fremote\<close>, \<open>close\<close>, and \<open>lseek (fd, 0, SEEK_SET)\<close>
  (\<open>Some errno\<close> when it fails). A successful call leaves \<open>errno\<close> as it was.
\<close>

record recheck_env =
  errno0 :: int
  open_res :: "int + int"
  lstat_res :: "int + stat"
  fstat_res :: "int + stat"
  fstatfs_res :: "int + int"
  close_res :: "int \<Rightarrow> int"
  lseek_err :: "int option"

text \<open>
  The first half of \<open>recheck\<close>, the chain of \<open>if ... else if\<close> that classifies the name:
  it gives \<open>ok\<close>, the record and the diagnostics. \<open>nfd\<close> is the new descriptor (-1 when
  \<open>open\<close> failed), \<open>errno1\<close> the value of \<open>errno\<close> after \<open>open\<close>.
\<close>

definition recheck_classify ::
  "globals \<Rightarrow> recheck_env \<Rightarrow> File_spec \<Rightarrow> int \<Rightarrow> int \<Rightarrow> bool \<Rightarrow> int
     \<Rightarrow> bool \<times> File_spec \<times> action list" where
  "recheck_classify g env f nfd errno1 was_tailable prev_errnum =
     (let errno2 = (if \<not> disable_inotify g
                    then (case lstat_res env of Inl e \<Rightarrow> e | Inr st \<Rightarrow> errno1) else errno1);
          is_link = (\<not> disable_inotify g \<and>
                     (case lstat_res env of Inl e \<Rightarrow> False | Inr st \<Rightarrow> S_ISLNK (st_mode st)))
      in
        if is_link then
          (False, f\<lparr>errnum := - 1, ignore := True\<rparr>,
           [Diagnostic (Diag 0 (pretty_name f
              @ '' has been replaced with an untailable symbolic link''))])
        else if nfd = - 1 \<or> (case fstat_res env of Inl e \<Rightarrow> True | Inr st \<Rightarrow> False) then
          (let errno3 = (if nfd = - 1 then errno2
                         else (case fstat_res env of Inl e \<Rightarrow> e | Inr st \<Rightarrow> errno2));
               f1 = f\<lparr>errnum := errno3\<rparr>
           in (False, f1,
               if \<not> tailable f1 then
                 (if was_tailable
                  then [Diagnostic (Diag (errnum f1) (pretty_name f1 @ '' has become inaccessible''))]
                  else [])
               else if prev_errnum \<noteq> errno3
                 then [Diagnostic (Diag errno3 (pretty_name f1))]
                 else []))
        else
          (case fstat_res env of
             Inl e \<Rightarrow> (False, f, [])
           | Inr new_stats \<Rightarrow>
               if \<not> IS_TAILABLE_FILE_TYPE (st_mode new_stats) then
                 (let f1 = f\<lparr>errnum := - 1, tailable := False,
                             ignore := \<not> (reopen_inaccessible_files g
                                            \<and> follow_mode g = Follow_name)\<rparr>
                  in (False, f1,
                      if was_tailable \<or> prev_errnum \<noteq> errnum f1
                      then [Diagnostic (Diag 0 (pretty_name f1
                              @ '' has been replaced with an untailable file''
                              @ (if ignore f1 then ''; giving up on this name'' else [])))]
                      else []))
               else
                 (case fremote (fstatfs_res env) (pretty_name f) of
                    (rem, acts) \<Rightarrow>
                      if rem \<and> \<not> disable_inotify g then
                        (False, f\<lparr>remote := True, errnum := - 1, ignore := True\<rparr>,
                         acts @ [Diagnostic (Diag 0 (pretty_name f
                                   @ '' has been replaced with an untailable remote file''))])
                      else (True, f\<lparr>remote := rem, errnum := 0\<rparr>, acts))))"

text \<open>
  \<open>recheck (f, blocking)\<close>. The result is the record and what was done; \<open>Abort\<close> when an
  \<open>affirm\<close> fails, \<open>Exit_failure\<close> when \<open>xlseek\<close> fails.
\<close>

definition recheck ::
  "globals \<Rightarrow> recheck_env \<Rightarrow> File_spec \<Rightarrow> bool \<Rightarrow> (File_spec \<times> action list) outcome" where
  "recheck g env f blk =
     (let is_stdin = (name f = ''-'');
          was_tailable = tailable f;
          prev_errnum = errnum f;
          nfd = (if is_stdin then STDIN_FILENO
                 else (case open_res env of Inl e \<Rightarrow> - 1 | Inr d \<Rightarrow> d));
          errno1 = (if is_stdin then errno0 env
                    else (case open_res env of Inl e \<Rightarrow> e | Inr d \<Rightarrow> errno0 env))
      in
        if \<not> valid_file_spec f then Abort
        else
          (case recheck_classify g env
                  (f\<lparr>tailable := \<not> (reopen_inaccessible_files g \<and> nfd = - 1)\<rparr>)
                  nfd errno1 was_tailable prev_errnum of
             (ok, f1, acts1) \<Rightarrow>
               if \<not> ok then
                 Return (f1\<lparr>fd := - 1\<rparr>,
                         acts1 @ close_fd (close_res env) nfd (pretty_name f1)
                               @ close_fd (close_res env) (fd f1) (pretty_name f1))
               else
                 (case (if prev_errnum \<noteq> 0 \<and> prev_errnum \<noteq> ENOENT then
                          (if fd f1 = - 1
                           then Some (True, [Diagnostic (Diag 0 (pretty_name f1
                                                @ '' has become accessible''))])
                           else None)
                        else if fd f1 = - 1 then
                          Some (True, [Diagnostic (Diag 0 (pretty_name f1
                                         @ '' has appeared;  following new file''))])
                        else
                          (case fstat_res env of
                             Inl e \<Rightarrow> None
                           | Inr new_stats \<Rightarrow>
                               if ino f1 \<noteq> st_ino new_stats \<or> dev f1 \<noteq> st_dev new_stats then
                                 Some (True,
                                       Diagnostic (Diag 0 (pretty_name f1
                                         @ '' has been replaced;  following new file''))
                                       # close_fd (close_res env) (fd f1) (pretty_name f1))
                               else Some (False, close_fd (close_res env) nfd (pretty_name f1)))) of
                    None \<Rightarrow> Abort
                  | Some (new_file, acts2) \<Rightarrow>
                      if \<not> new_file then Return (f1, acts1 @ acts2)
                      else
                        (case fstat_res env of
                           Inl e \<Rightarrow> Abort
                         | Inr new_stats \<Rightarrow>
                             let f2 = record_open_fd f1 nfd 0 new_stats
                                        (if is_stdin then - 1 else (if blk then 1 else 0))
                             in
                               if S_ISREG (st_mode new_stats) then
                                 (case lseek_err env of
                                    Some e \<Rightarrow>
                                      Exit_failure (xlseek_diag e SEEK_SET (pretty_name f2)) []
                                  | None \<Rightarrow>
                                      Return (f2, acts1 @ acts2 @ [Positioned nfd 0]))
                               else Return (f2, acts1 @ acts2)))))"

subsection \<open>\<open>tail_file\<close>, \<open>ignore_fifo_and_pipe\<close> and \<open>check_fspec\<close>\<close>

text \<open>
  The system calls of \<open>tail_file\<close> on one operand: \<open>open\<close> of the name (\<open>Inl errno\<close> or
  the descriptor), what that descriptor is (for standard input: what descriptor 0 is),
  \<open>fstat\<close> as \<open>tail_lines\<close> or \<open>tail_bytes\<close> calls it, \<open>fstat\<close> as \<open>tail_file\<close> calls it
  after \<open>tail\<close>, \<open>fstatfs\<close> for \<open>fremote\<close>, and \<open>close\<close>.
\<close>

record tail_env =
  te_open :: "int + int"
  te_desc :: fdesc
  te_fstat :: "int + stat"
  te_fstat_after :: "int + stat"
  te_fstatfs :: "int + int"
  te_close :: "int \<Rightarrow> int"

text \<open>
  \<open>tail_file\<close>: it returns \<open>ok\<close>, the record, the static \<open>first_file\<close>, standard output and
  what was done.
\<close>

definition tail_file ::
  "nat \<Rightarrow> globals \<Rightarrow> tail_env \<Rightarrow> bool \<Rightarrow> File_spec \<Rightarrow> nat \<Rightarrow> nat \<Rightarrow> bytes
     \<Rightarrow> (bool \<times> File_spec \<times> bool \<times> bytes \<times> action list) outcome" where
  "tail_file B g env first_file f n_files n_units out =
     (let is_stdin = (name f = ''-'');
          nfd = (if is_stdin then STDIN_FILENO
                 else (case te_open env of Inl e \<Rightarrow> - 1 | Inr d \<Rightarrow> d));
          f1 = f\<lparr>tailable := \<not> (reopen_inaccessible_files g \<and> nfd = - 1)\<rparr>
      in
        if nfd = - 1 then
          (let e = (case te_open env of Inl e \<Rightarrow> e | Inr d \<Rightarrow> 0);
               f2 = (if forever g
                     then f1\<lparr>fd := - 1, errnum := e,
                             ignore := \<not> reopen_inaccessible_files g, ino := 0, dev := 0\<rparr>
                     else f1)
           in Return (False, f2, first_file, out,
                      [Diagnostic (Diag e (''cannot open '' @ pretty_name f2 @ '' for reading''))]))
        else
          (let out1 = (if print_headers g then out @ write_header first_file (pretty_name f1)
                       else out);
               first_file1 = (if print_headers g then False else first_file)
           in
             (case tail B g (pretty_name f1) (te_fstat env) (te_desc env) n_units out1 of
                Exit_failure d o' \<Rightarrow> Exit_failure d o'
              | Abort \<Rightarrow> Abort
              | Undefined \<Rightarrow> Undefined
              | Return (ok, out2, read_pos, diags) \<Rightarrow>
                  if forever g then
                    (let f2 = f1\<lparr>errnum := (if ok then 0 else - 1)\<rparr> in
                       (case (case te_fstat_after env of
                                Inl e \<Rightarrow>
                                  (False, f2\<lparr>errnum := e\<rparr>,
                                   [Diagnostic (Diag e (''error reading '' @ pretty_name f2))],
                                   None)
                              | Inr stats \<Rightarrow>
                                  if \<not> IS_TAILABLE_FILE_TYPE (st_mode stats) then
                                    (let f3 = f2\<lparr>errnum := - 1, tailable := False,
                                                 ignore := \<not> reopen_inaccessible_files g\<rparr>
                                     in (False, f3,
                                         [Diagnostic (Diag 0 (pretty_name f3
                                            @ '': cannot follow end of this type of file''
                                            @ (if ignore f3 then ''; giving up on this name''
                                               else [])))],
                                         Some stats))
                                  else (ok, f2, [], Some stats)) of
                          (ok1, f3, acts, stats_opt) \<Rightarrow>
                            if \<not> ok1 then
                              Return (False,
                                      f3\<lparr>ignore := \<not> reopen_inaccessible_files g, fd := - 1\<rparr>,
                                      first_file1, out2,
                                      map Diagnostic diags @ acts
                                        @ close_fd (te_close env) nfd (pretty_name f3))
                            else
                              (case stats_opt of
                                 None \<Rightarrow> Undefined
                               | Some stats \<Rightarrow>
                                   (case fremote (te_fstatfs env) (pretty_name f3) of
                                      (rem, racts) \<Rightarrow>
                                        Return (True,
                                                (record_open_fd f3 nfd (int read_pos) stats
                                                   (if is_stdin then - 1 else 1))
                                                  \<lparr>remote := rem\<rparr>,
                                                first_file1, out2,
                                                map Diagnostic diags @ acts @ racts)))))
                  else if \<not> is_stdin \<and> te_close env nfd \<noteq> 0 then
                    Return (False, f1, first_file1, out2,
                            map Diagnostic diags
                              @ [Closed nfd,
                                 Diagnostic (Diag (te_close env nfd)
                                               (''error reading '' @ pretty_name f1))])
                  else
                    Return (ok, f1, first_file1, out2,
                            map Diagnostic diags @ (if is_stdin then [] else [Closed nfd])))))"

text \<open>
  \<open>ignore_fifo_and_pipe\<close>: the array after the loop and \<open>n_viable\<close>. \<open>have_fifo_pipes\<close> is
  the configuration macro \<open>HAVE_FIFO_PIPES\<close>, \<open>isapipe\<close> the function of that name.
  \<open>is_a_fifo_or_pipe\<close> is the local variable of the loop.
\<close>

definition is_a_fifo_or_pipe :: "int \<Rightarrow> (int \<Rightarrow> bool) \<Rightarrow> File_spec \<Rightarrow> bool" where
  "is_a_fifo_or_pipe have_fifo_pipes isapipe f =
     (name f = ''-'' \<and> \<not> ignore f \<and> 0 \<le> fd f
      \<and> (S_ISFIFO (mode f) \<or> (have_fifo_pipes \<noteq> 1 \<and> isapipe (fd f))))"

fun ignore_fifo_and_pipe ::
  "int \<Rightarrow> (int \<Rightarrow> bool) \<Rightarrow> File_spec list \<Rightarrow> File_spec list \<times> nat" where
  "ignore_fifo_and_pipe have_fifo_pipes isapipe [] = ([], 0)"
| "ignore_fifo_and_pipe have_fifo_pipes isapipe (f # fs) =
     (let r = ignore_fifo_and_pipe have_fifo_pipes isapipe fs in
        if is_a_fifo_or_pipe have_fifo_pipes isapipe f
        then (f\<lparr>fd := - 1, ignore := True\<rparr> # fst r, snd r)
        else (f # fst r, snd r + 1))"

text \<open>
  The system calls of \<open>check_fspec\<close>: \<open>fstat\<close> of the descriptor, \<open>close\<close>,
  \<open>lseek (fd, 0, SEEK_SET)\<close>, and what the descriptor gives to \<open>dump_remainder\<close>.
\<close>

record check_env =
  ce_fstat :: "int + stat"
  ce_close :: "int \<Rightarrow> int"
  ce_lseek_err :: "int option"
  ce_input :: stream

text \<open>
  \<open>check_fspec (fspec, prev_fspec)\<close>. \<open>is_prev\<close> says whether \<open>*prev_fspec\<close> is \<open>fspec\<close>,
  on entry and in the result.
\<close>

definition check_fspec ::
  "nat \<Rightarrow> globals \<Rightarrow> check_env \<Rightarrow> bool \<Rightarrow> File_spec \<Rightarrow> bool \<Rightarrow> bytes
     \<Rightarrow> (File_spec \<times> bool \<times> bool \<times> bytes \<times> action list) outcome" where
  "check_fspec B g env first_file fspec is_prev out =
     (if fd fspec = - 1 then Return (fspec, is_prev, first_file, out, [])
      else
        (case ce_fstat env of
           Inl e \<Rightarrow>
             Return (fspec\<lparr>errnum := e, fd := - 1\<rparr>, is_prev, first_file, out,
                     close_fd (ce_close env) (fd fspec) (pretty_name fspec))
         | Inr stats \<Rightarrow>
             if \<not> (S_ISREG (mode fspec) \<and> st_size stats < fsize fspec)
                \<and> S_ISREG (mode fspec) \<and> st_size stats = fsize fspec
                \<and> mtime fspec = st_mtime stats
             then Return (fspec, is_prev, first_file, out, [])
             else
               (case (if S_ISREG (mode fspec) \<and> st_size stats < fsize fspec
                      then (case ce_lseek_err env of
                              Some e \<Rightarrow> Inl (xlseek_diag e SEEK_SET (pretty_name fspec))
                            | None \<Rightarrow>
                                Inr (fspec\<lparr>fsize := 0\<rparr>,
                                     [Diagnostic (Diag 0 (pretty_name fspec @ '': file truncated'')),
                                      Positioned (fd fspec) 0]))
                      else Inr (fspec, [])) of
                  Inl dg \<Rightarrow> Exit_failure dg out
                | Inr (f1, acts) \<Rightarrow>
                    (case dump_remainder B first_file (print_headers g \<and> \<not> is_prev)
                            (pretty_name f1) (ce_input env) COPY_TO_EOF out of
                       Exit_failure d o' \<Rightarrow> Exit_failure d o'
                     | Abort \<Rightarrow> Abort
                     | Undefined \<Rightarrow> Undefined
                     | Return (bytes_read, out', s', first_file') \<Rightarrow>
                         Return (f1\<lparr>fsize := fsize f1 + int bytes_read\<rparr>,
                                 (if bytes_read \<noteq> 0 then True else is_prev),
                                 first_file', out', acts)))))"

subsection \<open>One file in one pass of \<open>tail_forever\<close>\<close>

text \<open>
  The system calls of the body of the \<open>for\<close> loop for one file: those of \<open>recheck\<close>,
  \<open>fcntl (fd, F_GETFL)\<close> (\<open>Inl errno\<close>, or whether \<open>O_NONBLOCK\<close> is set),
  \<open>fcntl (fd, F_SETFL, new_flags)\<close> (\<open>Some errno\<close> when it fails), \<open>fstat\<close>,
  \<open>lseek (fd, 0, SEEK_SET)\<close>, and what the descriptor gives to \<open>dump_remainder\<close>.
\<close>

record pass_env =
  pe_recheck :: recheck_env
  pe_getfl :: "int + bool"
  pe_setfl :: "int option"
  pe_fstat :: "int + stat"
  pe_lseek_err :: "int option"
  pe_input :: stream

text \<open>
  The block \<open>if (f[i].blocking != blocking)\<close>: the fatal diagnostic, or the record.
\<close>

definition reconcile_blocking :: "pass_env \<Rightarrow> bool \<Rightarrow> File_spec \<Rightarrow> diag + File_spec" where
  "reconcile_blocking env blk f =
     (let failed = (\<lambda>e. if S_ISREG (mode f) \<and> e = EPERM then Inr f
                         else Inl (Diag e (pretty_name f @ '': cannot change nonblocking mode'')));
          updated = Inr (f\<lparr>blocking := (if blk then 1 else 0)\<rparr>)
      in
        if blocking f \<noteq> (if blk then 1 else 0) then
          (case pe_getfl env of
             Inl e \<Rightarrow> failed e
           | Inr nonblock \<Rightarrow>
               if \<not> blk \<and> \<not> nonblock
               then (case pe_setfl env of Some e \<Rightarrow> failed e | None \<Rightarrow> updated)
               else updated)
        else Inr f)"

text \<open>
  Inside the block \<open>if (!f[i].blocking)\<close>, the case where mode, size and time are as
  recorded: the counter \<open>n_unchanged_stats\<close> and the occasional \<open>recheck\<close>.
\<close>

definition tail_forever_unchanged ::
  "globals \<Rightarrow> pass_env \<Rightarrow> File_spec \<Rightarrow> bytes \<Rightarrow> (File_spec \<times> action list) outcome" where
  "tail_forever_unchanged g env f out =
     (let f1 = f\<lparr>n_unchanged_stats := n_unchanged_stats f + 1\<rparr> in
        if max_n_unchanged_stats_between_opens g \<le> n_unchanged_stats f
           \<and> follow_mode g = Follow_name
        then (case recheck g (pe_recheck env) f1 (blocking f1 \<noteq> 0) of
                Return (f2, acts) \<Rightarrow> Return (f2\<lparr>n_unchanged_stats := 0\<rparr>, acts)
              | Exit_failure d o' \<Rightarrow> Exit_failure d out
              | Abort \<Rightarrow> Abort
              | Undefined \<Rightarrow> Undefined)
        else Return (f1, []))"

text \<open>
  The block \<open>if (!f[i].blocking)\<close> ends either with \<open>continue\<close> (\<open>Next_file\<close>: the record
  and what was done), or the file is read (\<open>Read_file\<close>: the record, \<open>read_unchanged\<close>,
  \<open>last\<close>, the status, \<open>first_file\<close>, standard output and what was done).
\<close>

datatype stat_step =
    Next_file File_spec "action list"
  | Read_file File_spec bool nat stat bool bytes "action list"

text \<open>
  From \<open>affirm (fd == f[i].fd)\<close> to the header: "this file has changed".
\<close>

definition tail_forever_changed ::
  "globals \<Rightarrow> pass_env \<Rightarrow> nat \<Rightarrow> nat \<Rightarrow> bool \<Rightarrow> File_spec \<Rightarrow> bool \<Rightarrow> stat \<Rightarrow> int \<Rightarrow> mode_t
     \<Rightarrow> string \<Rightarrow> bytes \<Rightarrow> action list \<Rightarrow> stat_step outcome" where
  "tail_forever_changed g env i lst first_file f read_unchanged stats fd0 mode0 nm out acts =
     (if fd0 \<noteq> fd f then Abort
      else
        (let f1 = f\<lparr>mtime := st_mtime stats, mode := st_mode stats\<rparr>;
             f2 = (if \<not> read_unchanged then f1\<lparr>n_unchanged_stats := 0\<rparr> else f1)
         in
           (case (if S_ISREG mode0 \<and> st_size stats < fsize f2
                  then (case pe_lseek_err env of
                          Some e \<Rightarrow> Inl (xlseek_diag e SEEK_SET nm)
                        | None \<Rightarrow>
                            Inr (f2\<lparr>fsize := 0\<rparr>,
                                 [Diagnostic (Diag 0 (nm @ '': file truncated'')),
                                  Positioned fd0 0]))
                  else Inr (f2, [])) of
              Inl dg \<Rightarrow> Exit_failure dg out
            | Inr (f3, acts2) \<Rightarrow>
                if i \<noteq> lst then
                  Return (Read_file f3 read_unchanged i stats
                            (if print_headers g then False else first_file)
                            (if print_headers g then out @ write_header first_file nm else out)
                            (acts @ acts2))
                else Return (Read_file f3 read_unchanged lst stats first_file out
                               (acts @ acts2)))))"

text \<open>The block \<open>if (!f[i].blocking)\<close>.\<close>

definition tail_forever_stat ::
  "globals \<Rightarrow> pass_env \<Rightarrow> nat \<Rightarrow> nat \<Rightarrow> nat \<Rightarrow> bool \<Rightarrow> File_spec \<Rightarrow> int \<Rightarrow> mode_t \<Rightarrow> bytes
     \<Rightarrow> stat_step outcome" where
  "tail_forever_stat g env n_files i lst first_file f fd0 mode0 out =
     (case pe_fstat env of
        Inl e \<Rightarrow>
          Return (Next_file (f\<lparr>fd := - 1, errnum := e\<rparr>)
                    [Diagnostic (Diag e (pretty_name f)), Closed fd0])
      | Inr stats \<Rightarrow>
          if mode f = st_mode stats
             \<and> (\<not> S_ISREG (st_mode stats) \<or> fsize f = st_size stats)
             \<and> mtime f = st_mtime stats
          then
            (case tail_forever_unchanged g env f out of
               Exit_failure d o' \<Rightarrow> Exit_failure d o'
             | Abort \<Rightarrow> Abort
             | Undefined \<Rightarrow> Undefined
             | Return (f2, acts) \<Rightarrow>
                 if fd0 \<noteq> fd f2 \<or> S_ISREG (st_mode stats) \<or> 1 < n_files
                 then Return (Next_file f2 acts)
                 else tail_forever_changed g env i lst first_file f2 True stats fd0 mode0
                        (pretty_name f) out acts)
          else tail_forever_changed g env i lst first_file f False stats fd0 mode0
                 (pretty_name f) out [])"

text \<open>
  The end of the body: \<open>bytes_to_read\<close>, \<open>dump_remainder\<close> and the update of the record. It
  gives the record and whether bytes were read. The difference \<open>stats.st_size - f[i].size\<close>
  is converted to \<open>uintmax_t\<close>.
\<close>

definition tail_forever_drain ::
  "nat \<Rightarrow> pass_env \<Rightarrow> bool \<Rightarrow> File_spec \<Rightarrow> mode_t \<Rightarrow> bool \<Rightarrow> stat option \<Rightarrow> bytes
     \<Rightarrow> (File_spec \<times> bool \<times> bool \<times> bytes) outcome" where
  "tail_forever_drain B env first_file f mode0 read_unchanged stats_opt out =
     (let bytes_to_read =
            (if blocking f \<noteq> 0 then COPY_A_BUFFER
             else if S_ISREG mode0 \<and> remote f
               then (case stats_opt of
                       Some stats \<Rightarrow> nat ((st_size stats - fsize f) mod 2 ^ 64)
                     | None \<Rightarrow> 0)
               else COPY_TO_EOF)
      in
        (case dump_remainder B first_file False (pretty_name f) (pe_input env) bytes_to_read out of
           Exit_failure d o' \<Rightarrow> Exit_failure d o'
         | Abort \<Rightarrow> Abort
         | Undefined \<Rightarrow> Undefined
         | Return (bytes_read, out', s', first_file') \<Rightarrow>
             (let f1 = (if read_unchanged \<and> bytes_read \<noteq> 0
                        then f\<lparr>n_unchanged_stats := 0\<rparr> else f)
              in Return (f1\<lparr>fsize := fsize f1 + int bytes_read\<rparr>, bytes_read \<noteq> 0,
                         first_file', out'))))"

text \<open>
  The body of the \<open>for\<close> loop of \<open>tail_forever\<close> for the file of index \<open>i\<close>: the record,
  \<open>last\<close>, whether the file gave input, \<open>first_file\<close>, standard output and what was done.
\<close>

definition tail_forever_file ::
  "nat \<Rightarrow> globals \<Rightarrow> pass_env \<Rightarrow> bool \<Rightarrow> nat \<Rightarrow> nat \<Rightarrow> nat \<Rightarrow> bool \<Rightarrow> File_spec \<Rightarrow> bytes
     \<Rightarrow> (File_spec \<times> nat \<times> bool \<times> bool \<times> bytes \<times> action list) outcome" where
  "tail_forever_file B g env blk n_files i lst first_file f out =
     (if ignore f then Return (f, lst, False, first_file, out, [])
      else if fd f < 0 then
        (case recheck g (pe_recheck env) f blk of
           Return (f1, acts) \<Rightarrow> Return (f1, lst, False, first_file, out, acts)
         | Exit_failure d o' \<Rightarrow> Exit_failure d out
         | Abort \<Rightarrow> Abort
         | Undefined \<Rightarrow> Undefined)
      else
        (case reconcile_blocking env blk f of
           Inl dg \<Rightarrow> Exit_failure dg out
         | Inr f1 \<Rightarrow>
             (case (if blocking f1 = 0
                    then tail_forever_stat g env n_files i lst first_file f1 (fd f) (mode f) out
                    else Return (Read_file f1 False lst
                                   \<lparr>st_dev = 0, st_ino = 0, st_mode = mode f, st_size = 0,
                                    st_blksize = 0, st_mtime = (0, 0)\<rparr>
                                   first_file out [])) of
                Exit_failure d o' \<Rightarrow> Exit_failure d o'
              | Abort \<Rightarrow> Abort
              | Undefined \<Rightarrow> Undefined
              | Return (Next_file f2 acts) \<Rightarrow> Return (f2, lst, False, first_file, out, acts)
              | Return (Read_file f2 read_unchanged lst' stats first_file1 out1 acts) \<Rightarrow>
                  (case tail_forever_drain B env first_file1 f2 (mode f) read_unchanged
                          (if blocking f2 = 0 then Some stats else None) out1 of
                     Exit_failure d o' \<Rightarrow> Exit_failure d o'
                   | Abort \<Rightarrow> Abort
                   | Undefined \<Rightarrow> Undefined
                   | Return (f3, any_input, first_file2, out2) \<Rightarrow>
                       Return (f3, lst', any_input, first_file2, out2, acts)))))"

text \<open>\<open>any_live_files\<close>.\<close>

fun any_live_loop :: "globals \<Rightarrow> File_spec list \<Rightarrow> bool" where
  "any_live_loop g [] = False"
| "any_live_loop g (f # fs) =
     (if 0 \<le> fd f then True
      else if \<not> ignore f \<and> reopen_inaccessible_files g then True
      else any_live_loop g fs)"

definition any_live_files :: "globals \<Rightarrow> File_spec list \<Rightarrow> bool" where
  "any_live_files g fs =
     (if reopen_inaccessible_files g \<and> follow_mode g = Follow_name then True
      else any_live_loop g fs)"

subsection \<open>\<open>main\<close>, after the options are parsed\<close>

datatype header_mode = multiple_files | always | never

definition EXIT_SUCCESS :: int where "EXIT_SUCCESS = 0"
definition EXIT_FAILURE :: int where "EXIT_FAILURE = 1"

text \<open>
  What \<open>main\<close> gets from the system besides the operands: the contents of the array
  \<open>xnmalloc\<close> returns (by index), the system calls of \<open>tail_file\<close> for each operand (by
  index), \<open>fstat\<close> and \<open>isatty\<close> of standard input, \<open>fstat\<close> of standard output, \<open>close\<close>
  of standard input, the macro \<open>HAVE_FIFO_PIPES\<close> and the function \<open>isapipe\<close>.
\<close>

record main_env =
  me_mem :: "nat \<Rightarrow> File_spec"
  me_tail :: "nat \<Rightarrow> tail_env"
  me_fstat_stdin :: "int + stat"
  me_isatty_stdin :: bool
  me_fstat_stdout :: "int + stat"
  me_close_stdin :: int
  me_have_fifo_pipes :: int
  me_isapipe :: "int \<Rightarrow> bool"

text \<open>
  How \<open>main\<close> ends: the process exits with a status, or \<open>main\<close> enters the follow loops
  (\<open>tail_forever_inotify\<close>, \<open>tail_forever\<close>) with the array \<open>F\<close>, \<open>ok\<close> and
  \<open>monitor_output\<close>. Each carries standard output and what was done until then.
\<close>

datatype main_end =
    Exits int bytes "action list"
  | Follows "File_spec list" bool bool bytes "action list"
  | Aborts
  | Undefined_behaviour

text \<open>The loop \<open>for (i = 0; i < n_files; i++) ok &= tail_file (&F[i], n_files, n_units)\<close>.\<close>

fun tail_files ::
  "nat \<Rightarrow> globals \<Rightarrow> nat \<Rightarrow> nat \<Rightarrow> (File_spec \<times> tail_env) list \<Rightarrow> bool \<Rightarrow> bytes
     \<Rightarrow> (bool \<times> File_spec list \<times> bool \<times> bytes \<times> action list) outcome" where
  "tail_files B g n_files n_units [] first_file out = Return (True, [], first_file, out, [])"
| "tail_files B g n_files n_units ((f, env) # rest) first_file out =
     (case tail_file B g env first_file f n_files n_units out of
        Exit_failure d o' \<Rightarrow> Exit_failure d o'
      | Abort \<Rightarrow> Abort
      | Undefined \<Rightarrow> Undefined
      | Return (ok, f', first_file', out', acts) \<Rightarrow>
          (case tail_files B g n_files n_units rest first_file' out' of
             Exit_failure d o' \<Rightarrow> Exit_failure d o'
           | Abort \<Rightarrow> Abort
           | Undefined \<Rightarrow> Undefined
           | Return (ok2, fs, first_file2, out2, acts2) \<Rightarrow>
               Return (ok \<and> ok2, f' # fs, first_file2, out2, acts @ acts2)))"

text \<open>
  The operands of \<open>main\<close> (one implicit \<open>-\<close> when there is none), the array \<open>F\<close> with
  the names set, paired with the system calls of each operand, and \<open>print_headers\<close>.
\<close>

definition operand_files :: "string list \<Rightarrow> string list" where
  "operand_files operands = (if operands \<noteq> [] then operands else [''-''])"

definition initial_F :: "main_env \<Rightarrow> string list \<Rightarrow> (File_spec \<times> tail_env) list" where
  "initial_F env files =
     map (\<lambda>i. ((me_mem env i)\<lparr>name := files ! i\<rparr>, me_tail env i)) [0 ..< length files]"

definition with_headers :: "globals \<Rightarrow> header_mode \<Rightarrow> nat \<Rightarrow> globals" where
  "with_headers g hmode n_files =
     g\<lparr>print_headers := (hmode = always \<or> (hmode = multiple_files \<and> n_files > 1))\<rparr>"

text \<open>The warning of \<open>main\<close> about following standard input.\<close>

definition stdin_warning :: "globals \<Rightarrow> main_env \<Rightarrow> nat \<Rightarrow> bool \<Rightarrow> action list" where
  "stdin_warning g env n_files found_hyphen =
     (let blocking_stdin =
            (nbpids g = 0 \<and> follow_mode g = Follow_descriptor \<and> n_files = 1
             \<and> (case me_fstat_stdin env of
                   Inl e \<Rightarrow> False
                 | Inr in_stat \<Rightarrow> \<not> S_ISREG (st_mode in_stat)))
      in if forever g \<and> found_hyphen \<and> \<not> blocking_stdin \<and> me_isatty_stdin env
         then [Diagnostic (Diag 0
                 ''warning: following standard input indefinitely is ineffective'')]
         else [])"

text \<open>
  \<open>main\<close> from the statement that adjusts \<open>n_units\<close> on. \<open>g\<close> holds the globals as
  \<open>parse_options\<close> left them, \<open>hmode\<close> is \<open>header_mode\<close>, \<open>operands\<close> are the arguments
  from \<open>optind\<close> on.
\<close>

definition main_run ::
  "nat \<Rightarrow> globals \<Rightarrow> header_mode \<Rightarrow> main_env \<Rightarrow> string list \<Rightarrow> nat \<Rightarrow> main_end" where
  "main_run B g hmode env operands n_units0 =
     (let n_units = adjust_n_units (from_start g) n_units0;
          files = operand_files operands;
          n_files = length files;
          found_hyphen = (''-'' \<in> set files)
      in
        if found_hyphen \<and> follow_mode g = Follow_name then
          Exits EXIT_FAILURE [] [Diagnostic (Diag 0 ''cannot follow '-' by name'')]
        else
          (let warn = stdin_warning g env n_files found_hyphen in
             if \<not> forever g \<and> n_units = (if from_start g then UINTMAX_MAX else 0) then
               Exits EXIT_SUCCESS [] warn
             else
               (case tail_files B (with_headers g hmode n_files) n_files n_units
                       (initial_F env files) True [] of
                  Exit_failure d o' \<Rightarrow> Exits EXIT_FAILURE o' (warn @ [Diagnostic d])
                | Abort \<Rightarrow> Aborts
                | Undefined \<Rightarrow> Undefined_behaviour
                | Return (ok, fs, first_file, out, acts) \<Rightarrow>
                    (let r = ignore_fifo_and_pipe (me_have_fifo_pipes env) (me_isapipe env) fs
                     in
                       if forever g \<and> snd r \<noteq> 0 then
                         (case me_fstat_stdout env of
                            Inl e \<Rightarrow>
                              Exits EXIT_FAILURE out
                                (warn @ acts @ [Diagnostic (Diag e ''standard output'')])
                          | Inr out_stat \<Rightarrow>
                              Follows (fst r) ok
                                (S_ISFIFO (st_mode out_stat)
                                 \<or> (me_have_fifo_pipes env \<noteq> 1 \<and> me_isapipe env 1))
                                out (warn @ acts))
                       else if found_hyphen \<and> me_close_stdin env \<noteq> 0 then
                         Exits EXIT_FAILURE out
                           (warn @ acts @ [Diagnostic (Diag (me_close_stdin env) ''-'')])
                       else Exits (if ok then EXIT_SUCCESS else EXIT_FAILURE) out
                              (warn @ acts)))))"

subsection \<open>Writer liveness: \<open>writers_are_dead\<close> and the idle step of \<open>tail_forever\<close>\<close>

text \<open>
  What \<open>kill (pid, 0)\<close> returns for one watched process: success, or failure with the
  value left in \<open>errno\<close>.
\<close>

datatype kill_result = Kill_ok | Kill_failed int

text \<open>
  The body of the \<open>for\<close> loop of \<open>writers_are_dead\<close>: the test
  \<open>kill (pids[i], 0) == 0 || errno == EPERM\<close>, under which the function returns false.
\<close>

fun writer_alive :: "kill_result \<Rightarrow> bool" where
  "writer_alive Kill_ok = True"
| "writer_alive (Kill_failed e) = (e = EPERM)"

fun writers_loop :: "kill_result list \<Rightarrow> bool" where
  "writers_loop [] = True"
| "writers_loop (r # rs) = (if writer_alive r then False else writers_loop rs)"

text \<open>The list holds the answer of \<open>kill\<close> for \<open>pids[0]\<close>, \<open>pids[1]\<close>, ...; its length is \<open>nbpids\<close>.\<close>

definition writers_are_dead :: "kill_result list \<Rightarrow> bool" where
  "writers_are_dead rs = (if length rs = 0 then False else writers_loop rs)"

text \<open>
  The end of one pass of the \<open>while\<close> loop of \<open>tail_forever\<close> (the block guarded by
  \<open>!any_input\<close>). A pass is observed as: whether any file gave input, what \<open>kill\<close>
  answers for the watched processes, and whether \<open>xnanosleep\<close> fails.
\<close>

datatype follow_end = Still_following bool | Writers_dead_break | Clock_failure

fun tail_forever_passes :: "bool \<Rightarrow> (bool \<times> kill_result list \<times> bool) list \<Rightarrow> follow_end" where
  "tail_forever_passes writers_dead [] = Still_following writers_dead"
| "tail_forever_passes writers_dead ((any_input, kills, sleep_fails) # rest) =
     (if \<not> any_input then
        (if writers_dead then Writers_dead_break
         else let writers_dead' = writers_are_dead kills in
           if \<not> writers_dead' \<and> sleep_fails then Clock_failure
           else tail_forever_passes writers_dead' rest)
      else tail_forever_passes writers_dead rest)"

text \<open>The liveness rule in the words of the specification, for comparison.\<close>

definition spec_writer_dead :: "kill_result \<Rightarrow> bool" where
  "spec_writer_dead r = (case r of Kill_ok \<Rightarrow> False | Kill_failed e \<Rightarrow> e \<noteq> ESRCH \<and> e \<noteq> EPERM)"

subsection \<open>Writer liveness: results\<close>

lemma writers_loop_iff: "writers_loop rs \<longleftrightarrow> (\<forall>r \<in> set rs. \<not> writer_alive r)"
  by (induction rs) auto

lemma writer_alive_iff: "\<not> writer_alive r \<longleftrightarrow> (\<exists>e. r = Kill_failed e \<and> e \<noteq> EPERM)"
  by (cases r) auto

lemma tail_forever_passes_break:
  "tail_forever_passes dead obs = Writers_dead_break \<Longrightarrow>
     dead \<or> (\<exists>kills \<in> set (map (fst \<circ> snd) obs). writers_are_dead kills)"
proof (induction obs arbitrary: dead)
  case Nil
  then show ?case by simp
next
  case (Cons ob obs)
  obtain ai kills sf where ob: "ob = (ai, kills, sf)" by (cases ob) auto
  show ?case
  proof (cases "ai \<or> dead")
    case True
    with Cons ob show ?thesis by (auto split: if_splits)
  next
    case False
    with Cons.prems ob have "tail_forever_passes (writers_are_dead kills) obs = Writers_dead_break"
      by (auto simp: Let_def split: if_splits)
    from Cons.IH [OF this] ob show ?thesis by auto
  qed
qed

text \<open>
  C4 (as the code has it). A watched process counts as dead exactly when \<open>kill (pid, 0)\<close>
  fails with an error code other than "permission denied": "no such process" is the
  usual way to be dead. With permission denied, or when the signal can be sent, the
  process is alive. \<open>writers_are_dead\<close> is true exactly when at least one process is
  watched and every watched process is dead, and the polling loop leaves through the
  writers-dead exit only after a pass on which \<open>writers_are_dead\<close> held.
\<close>

theorem writers_are_dead_rule:
  "(writers_are_dead rs \<longleftrightarrow> rs \<noteq> [] \<and> (\<forall>r \<in> set rs. \<exists>e. r = Kill_failed e \<and> e \<noteq> EPERM))
   \<and> \<not> writers_are_dead (Kill_failed EPERM # rs)
   \<and> \<not> writers_are_dead (Kill_ok # rs)
   \<and> writers_are_dead [Kill_failed ESRCH]
   \<and> (tail_forever_passes False obs = Writers_dead_break \<longrightarrow>
        (\<exists>kills \<in> set (map (fst \<circ> snd) obs). writers_are_dead kills))"
proof -
  have a: "writers_are_dead rs \<longleftrightarrow> rs \<noteq> [] \<and> (\<forall>r \<in> set rs. \<exists>e. r = Kill_failed e \<and> e \<noteq> EPERM)"
    by (simp add: writers_are_dead_def writers_loop_iff writer_alive_iff)
  have b: "\<not> writers_are_dead (Kill_failed EPERM # rs)" "\<not> writers_are_dead (Kill_ok # rs)"
    by (simp_all add: writers_are_dead_def)
  have c: "writers_are_dead [Kill_failed ESRCH]"
    by (simp add: writers_are_dead_def ESRCH_def EPERM_def)
  have d: "tail_forever_passes False obs = Writers_dead_break \<longrightarrow>
        (\<exists>kills \<in> set (map (fst \<circ> snd) obs). writers_are_dead kills)"
    using tail_forever_passes_break [of False obs] by blast
  from a b c d show ?thesis by blast
qed

theorem writers_are_dead_rule_witness:
  "writers_are_dead [Kill_failed ESRCH, Kill_failed EIO]
   \<and> \<not> writers_are_dead [Kill_failed ESRCH, Kill_failed EPERM]
   \<and> \<not> writers_are_dead []
   \<and> tail_forever_passes False
        [(True, [Kill_ok], False), (False, [Kill_failed ESRCH], False), (False, [Kill_ok], False)]
       = Writers_dead_break"
proof -
  have "writers_are_dead [Kill_failed ESRCH, Kill_failed EIO]"
    using writers_are_dead_rule [of "[Kill_failed ESRCH, Kill_failed EIO]" "[]"]
    by (simp add: ESRCH_def EIO_def EPERM_def)
  moreover have "\<not> writers_are_dead [Kill_failed ESRCH, Kill_failed EPERM]"
    by (simp add: writers_are_dead_def)
  moreover have "\<not> writers_are_dead []"
    by (simp add: writers_are_dead_def)
  moreover have "tail_forever_passes False
        [(True, [Kill_ok], False), (False, [Kill_failed ESRCH], False), (False, [Kill_ok], False)]
       = Writers_dead_break"
    by (simp add: writers_are_dead_def ESRCH_def EPERM_def)
  ultimately show ?thesis by blast
qed

text \<open>
  The rule as the specification words it ("neither no such process nor permission
  denied") fails on a process that no longer exists: the code reports the writers dead,
  the worded rule does not.
\<close>

theorem writers_are_dead_counterexample:
  "writers_are_dead [Kill_failed ESRCH] \<and> \<not> spec_writer_dead (Kill_failed ESRCH)"
  by (simp add: writers_are_dead_def spec_writer_dead_def ESRCH_def EPERM_def)


subsection \<open>Target records: what keeps \<open>valid_file_spec\<close>\<close>

















lemma ignore_fifo_and_pipe_eq:
  "ignore_fifo_and_pipe h p fs =
     (map (\<lambda>f. if is_a_fifo_or_pipe h p f then f\<lparr>fd := - 1, ignore := True\<rparr> else f) fs,
      length (filter (\<lambda>f. \<not> is_a_fifo_or_pipe h p f) fs))"
  by (induction fs) (auto simp: Let_def)



subsection \<open>Concrete runs used below\<close>

text \<open>
  Globals of a run that follows by descriptor, and of one that follows by name with
  retry, polling. \<open>raw_spec\<close> stands for the contents of fresh memory.
\<close>

definition follow_globals :: globals where
  "follow_globals =
     \<lparr>reopen_inaccessible_files = False, count_lines = True, follow_mode = Follow_descriptor,
      forever = True, from_start = False, print_headers = False, line_end = CHR 0x0A,
      max_n_unchanged_stats_between_opens = 5, nbpids = 0, page_size = 4096,
      presume_input_pipe = False, disable_inotify = False\<rparr>"

definition follow_name_globals :: globals where
  "follow_name_globals =
     \<lparr>reopen_inaccessible_files = True, count_lines = True, follow_mode = Follow_name,
      forever = True, from_start = False, print_headers = False, line_end = CHR 0x0A,
      max_n_unchanged_stats_between_opens = 5, nbpids = 0, page_size = 4096,
      presume_input_pipe = False, disable_inotify = True\<rparr>"

definition raw_spec :: File_spec where
  "raw_spec = \<lparr>name = [], fsize = 0, mtime = (0, 0), dev = 0, ino = 0, mode = (S_IFREG, 0),
     ignore = False, remote = False, tailable = False, fd = 0, errnum = 0, blocking = 0,
     wd = 0, parent_wd = 0, basename_start = 0, n_unchanged_stats = 0\<rparr>"

text \<open>Standard input is a pipe that gives \<open>s\<close>; standard output is a pipe too.\<close>

definition stdin_tail_env :: "stream \<Rightarrow> tail_env" where
  "stdin_tail_env s =
     \<lparr>te_open = Inl ENOENT, te_desc = Pipe s, te_fstat = Inr pipe_stat,
      te_fstat_after = Inr pipe_stat, te_fstatfs = Inl ENOSYS, te_close = (\<lambda>d. 0)\<rparr>"

definition stdin_pipe_env :: "stream \<Rightarrow> main_env" where
  "stdin_pipe_env s =
     \<lparr>me_mem = (\<lambda>i. raw_spec), me_tail = (\<lambda>i. stdin_tail_env s),
      me_fstat_stdin = Inr pipe_stat, me_isatty_stdin = False,
      me_fstat_stdout = Inr pipe_stat, me_close_stdin = 0,
      me_have_fifo_pipes = 1, me_isapipe = (\<lambda>d. False)\<rparr>"

text \<open>The record \<open>tail_file\<close> leaves for a standard input that is a pipe holding one line.\<close>

definition stdin_fifo_open :: File_spec where
  "stdin_fifo_open =
     \<lparr>name = ''-'', fsize = 2, mtime = (0, 0), dev = 0, ino = 0, mode = (S_IFIFO, 384),
      ignore = False, remote = True, tailable = True, fd = 0, errnum = 0, blocking = - 1,
      wd = 0, parent_wd = 0, basename_start = 0, n_unchanged_stats = 0\<rparr>"

text \<open>
  A file \<open>log\<close>: a record that holds descriptor 4 on inode 76, a record without
  descriptor after \<open>EACCES\<close>, and the system calls of a \<open>recheck\<close> that finds a regular
  file with inode 77 under the name.
\<close>

definition log_open :: File_spec where
  "log_open =
     \<lparr>name = ''log'', fsize = 40, mtime = (7, 0), dev = 1, ino = 76, mode = (S_IFREG, 420),
      ignore = False, remote = False, tailable = True, fd = 4, errnum = 0, blocking = 0,
      wd = - 1, parent_wd = - 1, basename_start = 0, n_unchanged_stats = 5\<rparr>"

definition log_denied :: File_spec where
  "log_denied = log_open\<lparr>fd := - 1, errnum := EACCES\<rparr>"

definition log_stat :: stat where
  "log_stat = \<lparr>st_dev = 1, st_ino = 77, st_mode = (S_IFREG, 420), st_size = 2,
               st_blksize = 4096, st_mtime = (9, 0)\<rparr>"

definition log_env :: recheck_env where
  "log_env =
     \<lparr>errno0 = 0, open_res = Inr 3, lstat_res = Inr log_stat, fstat_res = Inr log_stat,
      fstatfs_res = Inr 1, close_res = (\<lambda>d. 0), lseek_err = None\<rparr>"

lemmas run_defs =
  main_run_def operand_files_def initial_F_def with_headers_def stdin_warning_def
  adjust_n_units_def tail_file_def tail_def tail_lines_def pipe_lines_def pipe_lines_read.simps
  pipe_lines_add_def count_newlines.simps read_failed_def Let_def
  follow_globals_def follow_name_globals_def raw_spec_def pipe_stat_def stdin_pipe_env_def
  stdin_tail_env_def stdin_fifo_open_def S_ISREG_def S_ISFIFO_def S_ISLNK_def
  IS_TAILABLE_FILE_TYPE_def STDIN_FILENO_def pretty_name_def fremote_def record_open_fd_def
  close_fd_def EXIT_SUCCESS_def EXIT_FAILURE_def UINTMAX_MAX_def is_a_fifo_or_pipe_def
  log_open_def log_denied_def log_stat_def log_env_def


subsection \<open>C1: exactly one of \<open>fd == -1\<close> and \<open>errnum == 0\<close>\<close>






subsection \<open>C3: \<open>recheck\<close> adopts a new file\<close>

lemma fremote_acts:
  "fremote x n = (r, acts) \<Longrightarrow> Positioned a b \<notin> set acts \<and> Closed c \<notin> set acts"
  by (auto simp: fremote_def split: sum.splits if_splits)

text \<open>
  C3 (as the code has it). \<open>recheck\<close> is given a valid record; the name opens (or is
  standard input), \<open>fstat\<close> of the new descriptor shows a tailable type, the name is not
  a symbolic link and the file is not remote (these two matter only when inotify is in
  use), and either no descriptor is held or the held one has another \<open>(dev, ino)\<close>.
  Then \<open>recheck\<close> adopts the new descriptor with size 0 and the new identity, positions
  a regular file at offset 0 (the program exits if that fails), closes the descriptor it
  held, and reports: "has been replaced;  following new file" when a descriptor was
  held; when none was held, "has appeared;  following new file" if the last error was
  \<open>ENOENT\<close>, and "has become accessible" after any other error.
\<close>

theorem recheck_adopts_new_file:
  assumes v: "valid_file_spec f"
    and o: "name f \<noteq> ''-'' \<longrightarrow> open_res env = Inr d \<and> d \<noteq> - 1"
    and nfd: "nfd = (if name f = ''-'' then STDIN_FILENO else d)"
    and st: "fstat_res env = Inr st" "IS_TAILABLE_FILE_TYPE (st_mode st)"
    and lnk: "disable_inotify g
              \<or> (case lstat_res env of Inl e \<Rightarrow> True | Inr ls \<Rightarrow> \<not> S_ISLNK (st_mode ls))"
    and rem: "disable_inotify g \<or> \<not> fst (fremote (fstatfs_res env) (pretty_name f))"
    and new: "fd f = - 1 \<or> ino f \<noteq> st_ino st \<or> dev f \<noteq> st_dev st"
    and sk: "lseek_err env = None"
  shows "\<exists>f' acts. recheck g env f blk = Return (f', acts)
           \<and> fd f' = nfd \<and> fsize f' = 0 \<and> errnum f' = 0 \<and> \<not> ignore f'
           \<and> dev f' = st_dev st \<and> ino f' = st_ino st \<and> mode f' = st_mode st
           \<and> (Positioned nfd 0 \<in> set acts \<longleftrightarrow> S_ISREG (st_mode st))
           \<and> Diagnostic (Diag 0 (pretty_name f @
                 (if fd f \<noteq> - 1 then '' has been replaced;  following new file''
                  else if errnum f = ENOENT then '' has appeared;  following new file''
                  else '' has become accessible''))) \<in> set acts
           \<and> (fd f \<noteq> - 1 \<and> fd f \<noteq> STDIN_FILENO \<longrightarrow> Closed (fd f) \<in> set acts)"
proof -
  let ?N = "(if name f = ''-'' then STDIN_FILENO
                 else (case open_res env of Inl e \<Rightarrow> - 1 | Inr d \<Rightarrow> d))"
  have nfd': "?N = nfd"
    using o nfd by auto
  have n1: "?N \<noteq> - 1"
    using o nfd by (auto simp: STDIN_FILENO_def)
  obtain rm racts where fr: "fremote (fstatfs_res env) (pretty_name f) = (rm, racts)"
    by (cases "fremote (fstatfs_res env) (pretty_name f)")
  have pn: "\<And>a b. pretty_name (f\<lparr>tailable := a, remote := b, errnum := 0\<rparr>) = pretty_name f"
      "\<And>a. pretty_name (f\<lparr>tailable := a\<rparr>) = pretty_name f"
    by (simp_all add: pretty_name_def)
  have c: "recheck_classify g env
             (f\<lparr>tailable := \<not> (reopen_inaccessible_files g \<and> ?N = - 1)\<rparr>)
             ?N e1 (tailable f) (errnum f)
           = (True, f\<lparr>tailable := \<not> (reopen_inaccessible_files g \<and> ?N = - 1),
                       remote := rm, errnum := 0\<rparr>, racts)" for e1
    using st lnk rem n1 fr
    by (auto simp: recheck_classify_def Let_def pn split: sum.splits)
  have "recheck g env f blk =
     (let f1 = f\<lparr>tailable := \<not> (reopen_inaccessible_files g \<and> ?N = - 1),
                 remote := rm, errnum := 0\<rparr>;
          msg = (if fd f \<noteq> - 1 then '' has been replaced;  following new file''
                  else if errnum f = ENOENT then '' has appeared;  following new file''
                  else '' has become accessible'');
          acts2 = Diagnostic (Diag 0 (pretty_name f @ msg))
                    # (if fd f \<noteq> - 1 then close_fd (close_res env) (fd f) (pretty_name f)
                       else []);
          f2 = record_open_fd f1 ?N 0 st (if name f = ''-'' then - 1 else (if blk then 1 else 0))
      in Return (f2, racts @ acts2 @ (if S_ISREG (st_mode st) then [Positioned ?N 0] else [])))"
    apply (subst recheck_def)
    apply (simp only: Let_def c)
    using v new sk st
    apply (auto simp: valid_file_spec_def pretty_name_def close_fd_def)
    done
  then show ?thesis
    using n1 fr fremote_acts [OF fr]
    by (auto simp: Let_def nfd' record_open_fd_def close_fd_def)
qed

theorem recheck_adopts_new_file_witness:
  "\<exists>f' acts. recheck follow_name_globals log_env log_open True = Return (f', acts)
      \<and> fd f' = 3 \<and> fsize f' = 0 \<and> errnum f' = 0 \<and> \<not> ignore f'
      \<and> dev f' = 1 \<and> ino f' = 77 \<and> mode f' = (S_IFREG, 420)
      \<and> Positioned 3 0 \<in> set acts
      \<and> Diagnostic (Diag 0 ''log has been replaced;  following new file'') \<in> set acts
      \<and> Closed 4 \<in> set acts"
proof -
  have h: "valid_file_spec log_open"
      "name log_open \<noteq> ''-'' \<longrightarrow> open_res log_env = Inr 3 \<and> (3::int) \<noteq> - 1"
      "(3::int) = (if name log_open = ''-'' then STDIN_FILENO else 3)"
      "fstat_res log_env = Inr log_stat" "IS_TAILABLE_FILE_TYPE (st_mode log_stat)"
      "disable_inotify follow_name_globals
         \<or> (case lstat_res log_env of Inl e \<Rightarrow> True | Inr ls \<Rightarrow> \<not> S_ISLNK (st_mode ls))"
      "disable_inotify follow_name_globals
         \<or> \<not> fst (fremote (fstatfs_res log_env) (pretty_name log_open))"
      "fd log_open = - 1 \<or> ino log_open \<noteq> st_ino log_stat \<or> dev log_open \<noteq> st_dev log_stat"
      "lseek_err log_env = None"
    by (simp_all add: valid_file_spec_def run_defs)
  from recheck_adopts_new_file [OF h, of True]
  show ?thesis
    by (simp add: run_defs)
qed

text \<open>
  With no descriptor held after a "permission denied", the diagnostic is neither of
  the two the specification names.
\<close>

theorem recheck_adopts_new_file_counterexample:
  "valid_file_spec log_denied \<and> fd log_denied = - 1
   \<and> recheck follow_name_globals log_env log_denied False
       = Return (log_open\<lparr>tailable := True, fd := 3, fsize := 0, mtime := (9, 0), ino := 77,
                          n_unchanged_stats := 0\<rparr>,
                 [Diagnostic (Diag 0 ''log has become accessible''), Positioned 3 0])"
  by (simp add: recheck_def recheck_classify_def valid_file_spec_def run_defs ENOENT_def
      EACCES_def)

subsection \<open>C9: following \<open>-\<close> by name\<close>

text \<open>
  C9. If the follow mode is follow-by-name and an operand is \<open>-\<close>, or there is no
  operand (so that \<open>-\<close> is supplied), \<open>main\<close> exits with failure and the diagnostic
  "cannot follow '-' by name"; nothing was written and no file was opened or tailed.
\<close>

theorem follow_name_rejects_stdin:
  assumes "follow_mode g = Follow_name" "operands = [] \<or> ''-'' \<in> set operands"
  shows "main_run B g hmode env operands n_units
           = Exits EXIT_FAILURE [] [Diagnostic (Diag 0 ''cannot follow '-' by name'')]"
  using assms by (auto simp: main_run_def operand_files_def Let_def)

theorem follow_name_rejects_stdin_witness:
  "main_run 8192 follow_name_globals multiple_files (stdin_pipe_env []) [''log'', ''-''] 10
     = Exits EXIT_FAILURE [] [Diagnostic (Diag 0 ''cannot follow '-' by name'')]
   \<and> main_run 8192 follow_name_globals multiple_files (stdin_pipe_env []) [] 10
     = Exits EXIT_FAILURE [] [Diagnostic (Diag 0 ''cannot follow '-' by name'')]"
proof -
  have m: "follow_mode follow_name_globals = Follow_name"
    by (simp add: follow_name_globals_def)
  have a: "[''log'', ''-''] = [] \<or> ''-'' \<in> set [''log'', ''-'']" by simp
  have b: "([]::string list) = [] \<or> ''-'' \<in> set ([]::string list)" by simp
  from follow_name_rejects_stdin [OF m a] follow_name_rejects_stdin [OF m b]
  show ?thesis by blast
qed



subsection \<open>C5: a read error while draining\<close>

lemma safe_read_clean_prefix:
  assumes "clean pre" "pre \<noteq> []" "0 < n" "safe_read (pre @ s) n = (r, s')"
  shows "\<exists>buf pre'. r = Inr buf \<and> buf \<noteq> [] \<and> s' = pre' @ s \<and> clean pre'
            \<and> stream_data pre = buf @ stream_data pre'
            \<and> stream_size pre' < stream_size pre"
  using assms by (cases pre rule: clean.cases) (auto split: if_splits)

lemma dump_read_error_any:
  "clean pre \<Longrightarrow> 0 < B \<Longrightarrow>
   pre = [] \<or> n_bytes = COPY_TO_EOF \<and> 0 < nr \<or>
     n_bytes \<noteq> COPY_A_BUFFER \<and> length (stream_data pre) < nr \<Longrightarrow>
   dump_remainder_loop B nm n_bytes ff wh (pre @ Fail e # rest) nr nw out
     = (if e \<noteq> EAGAIN
        then Exit_failure (Diag e (''error reading '' @ nm))
               (out @ (if wh \<and> pre \<noteq> [] then write_header ff nm else []) @ stream_data pre)
        else Return (nw + length (stream_data pre),
               out @ (if wh \<and> pre \<noteq> [] then write_header ff nm else []) @ stream_data pre,
               rest, (if wh \<and> pre \<noteq> [] then False else ff)))"
proof (induction "stream_size pre" arbitrary: pre nr nw out wh ff rule: less_induct)
  case less
  show ?case
  proof (cases "pre = []")
    case True
    then show ?thesis
      by (subst dump_remainder_loop.simps) simp
  next
    case False
    with less.prems(3) have c: "n_bytes = COPY_TO_EOF \<and> 0 < nr \<or>
        n_bytes \<noteq> COPY_A_BUFFER \<and> length (stream_data pre) < nr" by simp
    then have pos: "0 < min nr B"
      using less.prems(2) by auto
    obtain r s' where rd: "safe_read (pre @ Fail e # rest) (min nr B) = (r, s')"
      by (cases "safe_read (pre @ Fail e # rest) (min nr B)")
    from safe_read_clean_prefix [OF less.prems(1) False pos rd] obtain buf pre' where
      b: "r = Inr buf" "buf \<noteq> []" "s' = pre' @ Fail e # rest" "clean pre'"
         "stream_data pre = buf @ stream_data pre'"
      and sm: "stream_size pre' < stream_size pre"
      by blast
    let ?ff1 = "if wh then False else ff"
    let ?out2 = "(if wh then out @ write_header ff nm else out) @ buf"
    show ?thesis
    proof (cases "n_bytes = COPY_TO_EOF")
      case True
      with c have c': "pre' = [] \<or> n_bytes = COPY_TO_EOF \<and> 0 < nr \<or>
          n_bytes \<noteq> COPY_A_BUFFER \<and> length (stream_data pre') < nr"
        by (auto simp: COPY_TO_EOF_def COPY_A_BUFFER_def UINTMAX_MAX_def)
      from less.hyps [OF sm b(4) less.prems(2) c', of ?ff1 False "nw + length buf" ?out2]
        b rd True False
      show ?thesis
        by (subst dump_remainder_loop.simps) (simp add: Let_def)
    next
      case ne: False
      with c have c3: "n_bytes \<noteq> COPY_A_BUFFER" "length (stream_data pre) < nr" by auto
      then have c': "pre' = [] \<or> n_bytes = COPY_TO_EOF \<and> 0 < nr - length buf \<or>
          n_bytes \<noteq> COPY_A_BUFFER \<and> length (stream_data pre') < nr - length buf"
        using b(5) by auto
      have nz: "nr - length buf \<noteq> 0" using c3 b(5) by auto
      from less.hyps [OF sm b(4) less.prems(2) c', of ?ff1 False "nw + length buf" ?out2]
        b rd ne False c3(1) nz
      show ?thesis
        by (subst dump_remainder_loop.simps) (simp add: Let_def)
    qed
  qed
qed

lemma clean_data_empty: "clean pre \<Longrightarrow> (stream_data pre = []) = (pre = [])"
  by (cases pre rule: clean.cases) auto

text \<open>
  The system calls of one pass over the file \<open>log\<close>, held open on descriptor 4: \<open>fstat\<close>
  shows that it grew, and its reads give \<open>s\<close>.
\<close>

definition log_pass_env :: "stream \<Rightarrow> pass_env" where
  "log_pass_env s =
     \<lparr>pe_recheck = log_env, pe_getfl = Inr True, pe_setfl = None,
      pe_fstat = Inr \<lparr>st_dev = 1, st_ino = 76, st_mode = (S_IFREG, 420), st_size = 42,
                      st_blksize = 4096, st_mtime = (8, 0)\<rparr>,
      pe_lseek_err = None, pe_input = s\<rparr>"

text \<open>
  The system calls of \<open>check_fspec\<close> on the file \<open>log\<close>, which grew; its reads give
  \<open>s\<close>.
\<close>

definition log_check_env :: "stream \<Rightarrow> check_env" where
  "log_check_env s =
     \<lparr>ce_fstat = Inr (log_stat\<lparr>st_size := 42\<rparr>), ce_close = (\<lambda>d. 0), ce_lseek_err = None,
      ce_input = s\<rparr>"

text \<open>
  C5 (as the code has it). In follow mode every drain of an open target goes through
  \<open>dump_remainder\<close>: the drain of \<open>tail_forever\<close>, which copies to the end of the data
  when the target is not in blocking mode, at most the growth of the size when the target
  is a remote regular file, and one buffer when the target is in blocking mode; and the
  drain of \<open>check_fspec\<close>, which copies to the end of the data. If a read of the drain
  fails, after the data \<open>pre\<close>, with a code other than \<open>EAGAIN\<close>, \<open>dump_remainder\<close> prints
  "error reading NAME" and the whole process exits with failure, the bytes read so far
  having been written: no record is returned, the target is not closed and the loop does
  not go on. A read that fails with \<open>EAGAIN\<close> gives no diagnostic and ends the drain: the
  bytes read so far are written and added to the recorded size. (The drain of one buffer
  meets the failing read when that is its first read; the drain capped by the growth of
  the size meets it when the data before it is shorter than the growth.)
\<close>

theorem drain_read_error:
  assumes "clean pre" "0 < B"
  shows "(pe_input env = pre @ Fail e # rest \<longrightarrow>
          (blocking f \<noteq> 0 \<longrightarrow> pre = []) \<longrightarrow>
          (blocking f = 0 \<and> S_ISREG m \<and> remote f \<longrightarrow>
             pre = [] \<or>
             (\<exists>stats. so = Some stats \<and>
                length (stream_data pre) < nat ((st_size stats - fsize f) mod 2 ^ 64) \<and>
                nat ((st_size stats - fsize f) mod 2 ^ 64) \<noteq> COPY_A_BUFFER)) \<longrightarrow>
          tail_forever_drain B env ff f m ru so out =
            (if e \<noteq> EAGAIN
             then Exit_failure (Diag e (''error reading '' @ pretty_name f))
                    (out @ stream_data pre)
             else Return ((if ru \<and> stream_data pre \<noteq> [] then f\<lparr>n_unchanged_stats := 0\<rparr>
                           else f)
                            \<lparr>fsize := fsize f + int (length (stream_data pre))\<rparr>,
                          stream_data pre \<noteq> [], ff, out @ stream_data pre))) \<and>
         (ce_input cenv = pre @ Fail e # rest \<longrightarrow> fd fspec \<noteq> - 1 \<longrightarrow>
          ce_fstat cenv = Inr stats \<longrightarrow> ce_lseek_err cenv = None \<longrightarrow>
          \<not> (S_ISREG (mode fspec) \<and> st_size stats = fsize fspec
               \<and> mtime fspec = st_mtime stats) \<longrightarrow>
          check_fspec B g cenv ff fspec is_prev out =
            (let hdr = (if print_headers g \<and> \<not> is_prev \<and> pre \<noteq> []
                        then write_header ff (pretty_name fspec) else []);
                 f1 = (if S_ISREG (mode fspec) \<and> st_size stats < fsize fspec
                       then fspec\<lparr>fsize := 0\<rparr> else fspec)
             in if e \<noteq> EAGAIN
                then Exit_failure (Diag e (''error reading '' @ pretty_name fspec))
                       (out @ hdr @ stream_data pre)
                else Return (f1\<lparr>fsize := fsize f1 + int (length (stream_data pre))\<rparr>,
                       (if stream_data pre \<noteq> [] then True else is_prev),
                       (if print_headers g \<and> \<not> is_prev \<and> pre \<noteq> [] then False else ff),
                       out @ hdr @ stream_data pre,
                       (if S_ISREG (mode fspec) \<and> st_size stats < fsize fspec
                        then [Diagnostic (Diag 0 (pretty_name fspec @ '': file truncated'')),
                              Positioned (fd fspec) 0]
                        else []))))"
proof (intro conjI impI)
  assume inp: "pe_input env = pre @ Fail e # rest"
    and blk: "blocking f \<noteq> 0 \<longrightarrow> pre = []"
    and cap: "blocking f = 0 \<and> S_ISREG m \<and> remote f \<longrightarrow>
             pre = [] \<or>
             (\<exists>stats. so = Some stats \<and>
                length (stream_data pre) < nat ((st_size stats - fsize f) mod 2 ^ 64) \<and>
                nat ((st_size stats - fsize f) mod 2 ^ 64) \<noteq> COPY_A_BUFFER)"
  define n where "n = (if blocking f \<noteq> 0 then COPY_A_BUFFER
             else if S_ISREG m \<and> remote f
               then (case so of
                       Some stats \<Rightarrow> nat ((st_size stats - fsize f) mod 2 ^ 64)
                     | None \<Rightarrow> 0)
               else COPY_TO_EOF)"
  have c: "pre = [] \<or> n = COPY_TO_EOF \<and> 0 < n \<or>
             n \<noteq> COPY_A_BUFFER \<and> length (stream_data pre) < n"
  proof (cases "blocking f \<noteq> 0")
    case True
    with blk show ?thesis by simp
  next
    case nb: False
    show ?thesis
    proof (cases "S_ISREG m \<and> remote f")
      case True
      with nb cap show ?thesis by (auto simp: n_def)
    next
      case False
      with nb show ?thesis
        by (auto simp: n_def COPY_TO_EOF_def UINTMAX_MAX_def)
    qed
  qed
  have "tail_forever_drain B env ff f m ru so out =
          (case dump_remainder_loop B (pretty_name f) n ff False (pre @ Fail e # rest) n 0 out of
             Exit_failure d o' \<Rightarrow> Exit_failure d o'
           | Abort \<Rightarrow> Abort
           | Undefined \<Rightarrow> Undefined
           | Return (bytes_read, out', s', first_file') \<Rightarrow>
               (let f1 = (if ru \<and> bytes_read \<noteq> 0 then f\<lparr>n_unchanged_stats := 0\<rparr> else f)
                in Return (f1\<lparr>fsize := fsize f1 + int bytes_read\<rparr>, bytes_read \<noteq> 0,
                           first_file', out')))"
    by (simp add: tail_forever_drain_def dump_remainder_def n_def inp Let_def)
  then show "tail_forever_drain B env ff f m ru so out =
            (if e \<noteq> EAGAIN
             then Exit_failure (Diag e (''error reading '' @ pretty_name f))
                    (out @ stream_data pre)
             else Return ((if ru \<and> stream_data pre \<noteq> [] then f\<lparr>n_unchanged_stats := 0\<rparr>
                           else f)
                            \<lparr>fsize := fsize f + int (length (stream_data pre))\<rparr>,
                          stream_data pre \<noteq> [], ff, out @ stream_data pre))"
    by (simp add: dump_read_error_any [OF assms c] Let_def)
next
  assume inp: "ce_input cenv = pre @ Fail e # rest" and fdn: "fd fspec \<noteq> - 1"
    and st: "ce_fstat cenv = Inr stats" and ls: "ce_lseek_err cenv = None"
    and ch: "\<not> (S_ISREG (mode fspec) \<and> st_size stats = fsize fspec
               \<and> mtime fspec = st_mtime stats)"
  have c: "pre = [] \<or> COPY_TO_EOF = COPY_TO_EOF \<and> 0 < COPY_TO_EOF \<or>
             COPY_TO_EOF \<noteq> COPY_A_BUFFER \<and> length (stream_data pre) < COPY_TO_EOF"
    by (simp add: COPY_TO_EOF_def UINTMAX_MAX_def)
  have e: "(stream_data pre = []) = (pre = [])"
    using assms(1) by (rule clean_data_empty)
  show "check_fspec B g cenv ff fspec is_prev out =
            (let hdr = (if print_headers g \<and> \<not> is_prev \<and> pre \<noteq> []
                        then write_header ff (pretty_name fspec) else []);
                 f1 = (if S_ISREG (mode fspec) \<and> st_size stats < fsize fspec
                       then fspec\<lparr>fsize := 0\<rparr> else fspec)
             in if e \<noteq> EAGAIN
                then Exit_failure (Diag e (''error reading '' @ pretty_name fspec))
                       (out @ hdr @ stream_data pre)
                else Return (f1\<lparr>fsize := fsize f1 + int (length (stream_data pre))\<rparr>,
                       (if stream_data pre \<noteq> [] then True else is_prev),
                       (if print_headers g \<and> \<not> is_prev \<and> pre \<noteq> [] then False else ff),
                       out @ hdr @ stream_data pre,
                       (if S_ISREG (mode fspec) \<and> st_size stats < fsize fspec
                        then [Diagnostic (Diag 0 (pretty_name fspec @ '': file truncated'')),
                              Positioned (fd fspec) 0]
                        else [])))"
    using fdn st ls ch inp e
    by (auto simp: check_fspec_def dump_remainder_def dump_read_error_any [OF assms c]
        Let_def pretty_name_def)
qed

theorem drain_read_error_witness:
  "tail_forever_drain 8192 (log_pass_env [Data ''ab'', Fail EIO]) False log_open
       (S_IFREG, 420) False None []
     = Exit_failure (Diag EIO ''error reading log'') ''ab''
   \<and> tail_forever_drain 8192 (log_pass_env [Data ''ab'', Fail EAGAIN]) False log_open
       (S_IFREG, 420) False None []
     = Return (log_open\<lparr>fsize := 42\<rparr>, True, False, ''ab'')
   \<and> tail_forever_drain 8192 (log_pass_env [Fail EIO]) False (log_open\<lparr>blocking := 1\<rparr>)
       (S_IFREG, 420) False None []
     = Exit_failure (Diag EIO ''error reading log'') []
   \<and> tail_forever_drain 8192 (log_pass_env [Data ''ab'', Fail EIO]) False
       (log_open\<lparr>remote := True\<rparr>) (S_IFREG, 420) False
       (Some (log_stat\<lparr>st_size := 45\<rparr>)) []
     = Exit_failure (Diag EIO ''error reading log'') ''ab''
   \<and> check_fspec 8192 follow_globals (log_check_env [Data ''ab'', Fail EIO]) False log_open
       False []
     = Exit_failure (Diag EIO ''error reading log'') ''ab''"
proof -
  have h: "clean [Data ''ab'']" "clean []" "(0::nat) < 8192" by simp_all
  note a = drain_read_error [OF h(1,3), THEN conjunct1, rule_format]
  note b = drain_read_error [OF h(2,3), THEN conjunct1, rule_format]
  note c = drain_read_error [OF h(1,3), THEN conjunct2, rule_format]
  have 1: "tail_forever_drain 8192 (log_pass_env [Data ''ab'', Fail EIO]) False log_open
       (S_IFREG, 420) False None []
     = Exit_failure (Diag EIO ''error reading log'') ''ab''"
    by (subst a [where e = EIO and rest = "[]"])
       (simp_all add: log_pass_env_def log_open_def pretty_name_def EIO_def EAGAIN_def)
  have 2: "tail_forever_drain 8192 (log_pass_env [Data ''ab'', Fail EAGAIN]) False log_open
       (S_IFREG, 420) False None []
     = Return (log_open\<lparr>fsize := 42\<rparr>, True, False, ''ab'')"
    by (subst a [where e = EAGAIN and rest = "[]"])
       (simp_all add: log_pass_env_def log_open_def pretty_name_def)
  have 3: "tail_forever_drain 8192 (log_pass_env [Fail EIO]) False (log_open\<lparr>blocking := 1\<rparr>)
       (S_IFREG, 420) False None []
     = Exit_failure (Diag EIO ''error reading log'') []"
    by (subst b [where e = EIO and rest = "[]"])
       (simp_all add: log_pass_env_def log_open_def pretty_name_def EIO_def EAGAIN_def)
  have 4: "tail_forever_drain 8192 (log_pass_env [Data ''ab'', Fail EIO]) False
       (log_open\<lparr>remote := True\<rparr>) (S_IFREG, 420) False
       (Some (log_stat\<lparr>st_size := 45\<rparr>)) []
     = Exit_failure (Diag EIO ''error reading log'') ''ab''"
    by (subst a [where e = EIO and rest = "[]"])
       (simp_all add: log_pass_env_def log_open_def log_stat_def pretty_name_def EIO_def
         EAGAIN_def COPY_A_BUFFER_def UINTMAX_MAX_def)
  have 5: "check_fspec 8192 follow_globals (log_check_env [Data ''ab'', Fail EIO]) False log_open
       False []
     = Exit_failure (Diag EIO ''error reading log'') ''ab''"
    by (subst c [where e = EIO and rest = "[]" and stats = "log_stat\<lparr>st_size := 42\<rparr>"])
       (simp_all add: log_check_env_def log_open_def log_stat_def pretty_name_def EIO_def
         EAGAIN_def follow_globals_def S_ISREG_def)
  from 1 2 3 4 5 show ?thesis by blast
qed

text \<open>
  One pass of the polling loop over the file \<open>log\<close>, which grew; the second read fails
  with \<open>EIO\<close>. The program exits: the record is not returned, nothing is closed.
\<close>

theorem drain_read_error_counterexample:
  "tail_forever_file 8192 follow_globals (log_pass_env [Data ''ab'', Fail EIO]) False 1 0 0
       False log_open []
     = Exit_failure (Diag EIO ''error reading log'') ''ab''"
  by (simp add: tail_forever_file_def reconcile_blocking_def tail_forever_stat_def
      tail_forever_changed_def tail_forever_drain_def dump_remainder_def
      dump_remainder_loop.simps log_pass_env_def run_defs COPY_TO_EOF_def EIO_def EAGAIN_def)

subsection \<open>C10: standard input that is a pipe is not followed\<close>

text \<open>
  C10 (as the code has it). \<open>ignore_fifo_and_pipe\<close> marks as ignored, with \<open>fd\<close> set to
  none, exactly the records of operands \<open>-\<close> that the initial \<open>tail_file\<close> left open and
  not ignored and whose mode is that of a FIFO (or for which \<open>isapipe\<close> holds where
  \<open>HAVE_FIFO_PIPES\<close> is not 1); every other record is left as it is and counted as
  viable. When follow is requested and every record after the initial output is such a
  piped standard input, \<open>main\<close> does not enter the follow loops: it exits.
\<close>

theorem ignore_fifo_and_pipe_then_exit:
  "fst (ignore_fifo_and_pipe h p fs)
     = map (\<lambda>f. if is_a_fifo_or_pipe h p f then f\<lparr>fd := - 1, ignore := True\<rparr> else f) fs
   \<and> snd (ignore_fifo_and_pipe h p fs) = length (filter (\<lambda>f. \<not> is_a_fifo_or_pipe h p f) fs)
   \<and> (forever g \<and> follow_mode g \<noteq> Follow_name
       \<and> tail_files B (with_headers g hmode (length (operand_files operands)))
            (length (operand_files operands)) (adjust_n_units (from_start g) n_units)
            (initial_F env (operand_files operands)) True []
          = Return (ok, fs', ff, out, acts)
       \<and> (\<forall>f \<in> set fs'. is_a_fifo_or_pipe (me_have_fifo_pipes env) (me_isapipe env) f)
       \<longrightarrow> (\<exists>status acts'. main_run B g hmode env operands n_units = Exits status out acts'))"
proof -
  have "\<And>fs. (\<forall>f \<in> set fs. is_a_fifo_or_pipe (me_have_fifo_pipes env) (me_isapipe env) f)
          \<Longrightarrow> filter (\<lambda>f. \<not> is_a_fifo_or_pipe (me_have_fifo_pipes env) (me_isapipe env) f) fs = []"
    by (simp add: filter_empty_conv)
  then show ?thesis
    by (auto simp: ignore_fifo_and_pipe_eq main_run_def Let_def)
qed

theorem ignore_fifo_and_pipe_then_exit_witness:
  "fst (ignore_fifo_and_pipe 1 (\<lambda>d. False) [log_open, stdin_fifo_open])
     = [log_open, stdin_fifo_open\<lparr>fd := - 1, ignore := True\<rparr>]
   \<and> snd (ignore_fifo_and_pipe 1 (\<lambda>d. False) [log_open, stdin_fifo_open]) = 1
   \<and> (\<exists>status acts'.
         main_run 8 follow_globals multiple_files (stdin_pipe_env [Data ''x\<newline>'']) [] 10
           = Exits status ''x\<newline>'' acts')"
proof -
  note th = ignore_fifo_and_pipe_then_exit
  have 1: "fst (ignore_fifo_and_pipe 1 (\<lambda>d. False) [log_open, stdin_fifo_open])
     = [log_open, stdin_fifo_open\<lparr>fd := - 1, ignore := True\<rparr>]"
    using th [THEN conjunct1, of 1 "\<lambda>d. False" "[log_open, stdin_fifo_open]"]
    by (simp add: run_defs)
  have 2: "snd (ignore_fifo_and_pipe 1 (\<lambda>d. False) [log_open, stdin_fifo_open]) = 1"
    using th [THEN conjunct2, THEN conjunct1, of 1 "\<lambda>d. False" "[log_open, stdin_fifo_open]"]
    by (simp add: run_defs)
  have t: "tail_files 8
            (with_headers follow_globals multiple_files (length (operand_files [])))
            (length (operand_files [])) (adjust_n_units (from_start follow_globals) 10)
            (initial_F (stdin_pipe_env [Data ''x\<newline>'']) (operand_files [])) True []
          = Return (True, [stdin_fifo_open], True, ''x\<newline>'', [])"
    by (simp add: run_defs)
  have h: "forever follow_globals \<and> follow_mode follow_globals \<noteq> Follow_name
       \<and> tail_files 8
            (with_headers follow_globals multiple_files (length (operand_files [])))
            (length (operand_files [])) (adjust_n_units (from_start follow_globals) 10)
            (initial_F (stdin_pipe_env [Data ''x\<newline>'']) (operand_files [])) True []
          = Return (True, [stdin_fifo_open], True, ''x\<newline>'', [])
       \<and> (\<forall>f \<in> set [stdin_fifo_open].
             is_a_fifo_or_pipe (me_have_fifo_pipes (stdin_pipe_env [Data ''x\<newline>'']))
               (me_isapipe (stdin_pipe_env [Data ''x\<newline>''])) f)"
    using t by (simp add: run_defs)
  from th [THEN conjunct2, THEN conjunct2, rule_format, OF h] 1 2
  show ?thesis by blast
qed

text \<open>
  Standard input is a pipe on which \<open>read\<close> fails (it is open for writing only), and
  retry is on. \<open>tail_file\<close> leaves the record without descriptor and not ignored;
  \<open>ignore_fifo_and_pipe\<close> does not mark it, and \<open>main\<close> enters the follow loops with it.
\<close>

theorem ignore_fifo_and_pipe_then_exit_counterexample:
  "main_run 8192 (follow_globals\<lparr>reopen_inaccessible_files := True\<rparr>) multiple_files
       (stdin_pipe_env [Fail EBADF]) [] 10
     = Follows [\<lparr>name = ''-'', fsize = 0, mtime = (0, 0), dev = 0, ino = 0,
                 mode = (S_IFREG, 0), ignore = False, remote = False, tailable = True,
                 fd = - 1, errnum = - 1, blocking = 0, wd = 0, parent_wd = 0,
                 basename_start = 0, n_unchanged_stats = 0\<rparr>]
         False True [] [Diagnostic (Diag EBADF ''error reading standard input'')]"
  by (simp add: run_defs EBADF_def EAGAIN_def)




subsection \<open>Lines of a byte sequence\<close>

text \<open>
  The lines of a byte sequence for the delimiter \<open>d\<close>: each line ends with its delimiter,
  and bytes after the last delimiter form a last line of their own. \<open>last_lines d k bs\<close> is
  the concatenation of the last \<open>k\<close> lines (all of them when there are fewer), and
  \<open>drop_lines d k bs\<close> is what follows the \<open>k\<close>-th delimiter.
\<close>

fun lines_of :: "char \<Rightarrow> bytes \<Rightarrow> bytes list" where
  "lines_of d [] = []"
| "lines_of d (b # bs) =
     (if b = d then [b] # lines_of d bs
      else (case lines_of d bs of [] \<Rightarrow> [[b]] | l # ls \<Rightarrow> (b # l) # ls))"

definition last_lines :: "char \<Rightarrow> nat \<Rightarrow> bytes \<Rightarrow> bytes" where
  "last_lines d k bs = concat (drop (length (lines_of d bs) - k) (lines_of d bs))"

fun drop_lines :: "char \<Rightarrow> nat \<Rightarrow> bytes \<Rightarrow> bytes" where
  "drop_lines d 0 bs = bs"
| "drop_lines d (Suc k) [] = []"
| "drop_lines d (Suc k) (b # bs) = (if b = d then drop_lines d k bs else drop_lines d (Suc k) bs)"

lemma concat_lines_of [simp]: "concat (lines_of d bs) = bs"
  by (induction bs) (auto split: list.splits)

lemma lines_of_Nil [simp]: "lines_of d bs = [] \<longleftrightarrow> bs = []"
  by (cases bs) (auto split: list.splits)

lemma drop_lines_Nil [simp]: "drop_lines d k [] = []"
  by (cases k) auto

lemma concat_drop_lines_of: "concat (drop k (lines_of d bs)) = drop_lines d k bs"
proof (induction bs arbitrary: k)
  case Nil
  then show ?case by simp
next
  case (Cons b bs)
  show ?case
  proof (cases k)
    case 0
    then show ?thesis using concat_lines_of [of d "b # bs"] by simp
  next
    case (Suc j)
    show ?thesis
    proof (cases "b = d")
      case True
      with Suc Cons.IH [of j] show ?thesis by simp
    next
      case False
      show ?thesis
      proof (cases "lines_of d bs")
        case Nil
        with False Suc show ?thesis by simp
      next
        case (Cons l ls)
        with False Suc Cons.IH [of "Suc j"] show ?thesis by simp
      qed
    qed
  qed
qed

lemma length_lines_of:
  "length (lines_of d bs) = count_list bs d + (if bs \<noteq> [] \<and> last bs \<noteq> d then 1 else 0)"
  by (induction bs) (auto split: list.splits)

lemma drop_lines_append:
  "drop_lines d k (xs @ ys) =
     (if k \<le> count_list xs d then drop_lines d k xs @ ys
      else drop_lines d (k - count_list xs d) ys)"
proof (induction xs arbitrary: k)
  case Nil
  then show ?case by (cases k) auto
next
  case (Cons x xs)
  show ?case
  proof (cases k)
    case 0
    then show ?thesis by simp
  next
    case (Suc j)
    then show ?thesis using Cons.IH [of j] Cons.IH [of "Suc j"] by auto
  qed
qed

lemma drop_lines_all: "count_list bs d < k \<Longrightarrow> drop_lines d k bs = []"
  by (induction d k bs rule: drop_lines.induct) auto

lemma last_lines_eq:
  "last_lines d k bs = drop_lines d (length (lines_of d bs) - k) bs"
  by (simp add: last_lines_def concat_drop_lines_of)

subsection \<open>The backward scan gives the last lines\<close>

lemma memrchr_None:
  "n \<le> length buf \<Longrightarrow> memrchr buf d n = None \<longleftrightarrow> d \<notin> set (take n buf)"
  by (induction n) (auto simp: take_Suc_conv_app_nth)

lemma memrchr_Some:
  "n \<le> length buf \<Longrightarrow> memrchr buf d n = Some i \<Longrightarrow>
     i < n \<and> take n buf = take i buf @ d # drop (Suc i) (take n buf)
     \<and> d \<notin> set (drop (Suc i) (take n buf))"
proof (induction n)
  case 0
  then show ?case by simp
next
  case (Suc n)
  have t: "take (Suc n) buf = take n buf @ [buf ! n]"
    using Suc.prems by (simp add: take_Suc_conv_app_nth)
  show ?case
  proof (cases "buf ! n = d")
    case True
    with Suc.prems have "i = n" by simp
    with Suc.prems True t show ?thesis by simp
  next
    case False
    with Suc.prems have m: "memrchr buf d n = Some i" by simp
    from Suc.IH [OF _ m] Suc.prems have
      ih: "i < n" "take n buf = take i buf @ d # drop (Suc i) (take n buf)"
          "d \<notin> set (drop (Suc i) (take n buf))"
      by auto
    have dr: "drop (Suc i) (take (Suc n) buf) = drop (Suc i) (take n buf) @ [buf ! n]"
      using ih(1) Suc.prems(1) by (simp add: t)
    have "take (Suc n) buf = take i buf @ d # drop (Suc i) (take (Suc n) buf)"
      unfolding dr using ih(2) t by simp
    with dr ih False show ?thesis by auto
  qed
qed

lemma count_list_zero: "count_list xs d = 0 \<longleftrightarrow> d \<notin> set xs"
  by (induction xs) auto

lemma file_lines_scan_not_found:
  "n \<le> length buf \<Longrightarrow> count_list (take n buf) d \<le> nl \<Longrightarrow>
     file_lines_scan buf d n nl = Inr (nl - count_list (take n buf) d)"
proof (induction buf d n nl rule: file_lines_scan.induct)
  case (1 buf d n nl)
  show ?case
  proof (cases "n = 0")
    case True
    then show ?thesis by (subst file_lines_scan.simps) simp
  next
    case False
    show ?thesis
    proof (cases "memrchr buf d n")
      case None
      with "1.prems" have "count_list (take n buf) d = 0"
        by (simp add: memrchr_None count_list_zero)
      with None False show ?thesis by (subst file_lines_scan.simps) simp
    next
      case (Some i)
      from memrchr_Some [OF "1.prems"(1) Some] have
        m: "i < n" "take n buf = take i buf @ d # drop (Suc i) (take n buf)"
           "d \<notin> set (drop (Suc i) (take n buf))"
        by auto
      have c: "count_list (take n buf) d = Suc (count_list (take i buf) d)"
        using m(3) by (subst m(2)) (simp add: count_list_zero)
      with "1.prems" have nl: "nl \<noteq> 0" "count_list (take i buf) d \<le> nl - 1" by auto
      from "1.IH" [OF False Some nl(1) _ nl(2)] m(1) "1.prems"(1)
      have "file_lines_scan buf d i (nl - 1) = Inr (nl - 1 - count_list (take i buf) d)"
        by simp
      with Some False nl c show ?thesis
        by (subst file_lines_scan.simps) simp
    qed
  qed
qed

lemma file_lines_scan_found:
  "n \<le> length buf \<Longrightarrow> nl < count_list (take n buf) d \<Longrightarrow>
     \<exists>i < n. file_lines_scan buf d n nl = Inl i
        \<and> drop (Suc i) (take n buf) = drop_lines d (count_list (take n buf) d - nl) (take n buf)"
proof (induction buf d n nl rule: file_lines_scan.induct)
  case (1 buf d n nl)
  from "1.prems" have n0: "n \<noteq> 0" by (cases n) auto
  from "1.prems" have "d \<in> set (take n buf)"
    using count_list_zero [of "take n buf" d] by auto
  with "1.prems"(1) obtain i where Some: "memrchr buf d n = Some i"
    using memrchr_None [of n buf d] by (cases "memrchr buf d n") auto
  from memrchr_Some [OF "1.prems"(1) Some] have
    m: "i < n" "take n buf = take i buf @ d # drop (Suc i) (take n buf)"
       "d \<notin> set (drop (Suc i) (take n buf))"
    by auto
  let ?R = "drop (Suc i) (take n buf)"
  have c: "count_list (take n buf) d = Suc (count_list (take i buf) d)"
    using m(3) by (subst m(2)) (simp add: count_list_zero)
  have cr: "count_list ?R d = 0" using m(3) by (simp add: count_list_zero)
  show ?case
  proof (cases "nl = 0")
    case True
    have "drop_lines d (Suc (count_list (take i buf) d)) (take i buf @ d # ?R) = ?R"
      by (simp add: drop_lines_append)
    with True Some n0 m c show ?thesis
      by (subst file_lines_scan.simps) (auto simp: simp del: drop_lines.simps)
  next
    case False
    with "1.prems" c have lt: "nl - 1 < count_list (take i buf) d" by auto
    from "1.IH" [OF n0 Some False _ lt] m(1) "1.prems"(1) obtain j where
      j: "j < i" "file_lines_scan buf d i (nl - 1) = Inl j"
         "drop (Suc j) (take i buf) = drop_lines d (count_list (take i buf) d - (nl - 1)) (take i buf)"
      by auto
    have k: "count_list (take n buf) d - nl = count_list (take i buf) d - (nl - 1)"
      using c False by simp
    have "drop (Suc j) (take n buf) = drop (Suc j) (take i buf) @ d # ?R"
      using j(1) m(1) "1.prems"(1) by (subst m(2)) simp
    also have "\<dots> = drop_lines d (count_list (take n buf) d - nl) (take i buf @ d # ?R)"
      using lt by (subst drop_lines_append) (simp add: k j(3))
    finally have "drop (Suc j) (take n buf) = drop_lines d (count_list (take n buf) d - nl) (take n buf)"
      using m(2) by simp
    with j Some n0 False m(1) show ?thesis
      by (subst file_lines_scan.simps) auto
  qed
qed

lemma safe_read_clean_size:
  assumes "clean s" "0 < n" "safe_read s n = (r, s')"
  shows "\<exists>buf. r = Inr buf \<and> clean s' \<and> stream_data s = buf @ stream_data s'
           \<and> (buf = [] \<longleftrightarrow> s = []) \<and> length buf \<le> n \<and> (buf \<noteq> [] \<longrightarrow> stream_size s' < stream_size s)"
  using assms by (cases s rule: clean.cases) (auto split: if_splits)

lemma dump_limited:
  "clean s \<Longrightarrow> 0 < B \<Longrightarrow> n_bytes \<noteq> COPY_TO_EOF \<Longrightarrow> n_bytes \<noteq> COPY_A_BUFFER \<Longrightarrow>
   \<exists>s'. dump_remainder_loop B nm n_bytes ff False s nr nw out
     = Return (nw + length (take nr (stream_data s)), out @ take nr (stream_data s), s', ff)"
proof (induction "stream_size s" arbitrary: s nr nw out rule: less_induct)
  case less
  obtain r s' where rd: "safe_read s (min nr B) = (r, s')"
    by (cases "safe_read s (min nr B)")
  show ?case
  proof (cases "nr = 0")
    case True
    with rd less.prems(1) have "r = Inr []"
      by (cases s rule: clean.cases) (auto split: if_splits)
    with True rd show ?thesis
      by (subst dump_remainder_loop.simps) auto
  next
    case False
    with less.prems have pos: "0 < min nr B" by simp
    from safe_read_clean_size [OF less.prems(1) pos rd] obtain buf where
      b: "r = Inr buf" "clean s'" "stream_data s = buf @ stream_data s'" "buf = [] \<longleftrightarrow> s = []"
         "length buf \<le> min nr B" "buf \<noteq> [] \<longrightarrow> stream_size s' < stream_size s"
      by blast
    show ?thesis
    proof (cases "buf = []")
      case True
      with b rd show ?thesis
        by (subst dump_remainder_loop.simps) auto
    next
      case ne: False
      show ?thesis
      proof (cases "nr - length buf = 0")
        case True
        with b have "length buf = nr" by simp
        with ne b rd less.prems show ?thesis
          by (subst dump_remainder_loop.simps) (simp add: Let_def)
      next
        case more: False
        from ne b have sm: "stream_size s' < stream_size s" by simp
        from less.hyps [OF sm b(2) less.prems(2,3,4), of "nr - length buf" "nw + length buf" "out @ buf"]
        obtain s'' where
          "dump_remainder_loop B nm n_bytes ff False s' (nr - length buf) (nw + length buf) (out @ buf)
           = Return (nw + length buf + length (take (nr - length buf) (stream_data s')),
                     (out @ buf) @ take (nr - length buf) (stream_data s'), s'', ff)"
          by auto
        with ne b rd less.prems more show ?thesis
          by (subst dump_remainder_loop.simps) (simp add: Let_def)
      qed
    qed
  qed
qed

lemma add_dumped_limited:
  assumes "0 < B" "n_bytes \<noteq> COPY_TO_EOF" "n_bytes \<noteq> COPY_A_BUFFER"
  shows "\<exists>rp. add_dumped base [] (dump_remainder B False False nm (reg_stream content pos) n_bytes out)
           = Return (True, out @ take n_bytes (drop pos content), rp, [])"
  using dump_limited [OF clean_reg_stream assms, of nm False content pos n_bytes 0 out]
  by (auto simp: dump_remainder_def add_dumped_def)

lemma reg_read:
  "0 < n \<Longrightarrow> \<exists>s'. safe_read (reg_stream content pos) n = (Inr (take n (drop pos content)), s')"
  by (auto simp: reg_stream_def)

lemma file_lines_loop_correct:
  assumes B: "0 < B" and bs: "0 < bufsize"
    and len: "end_pos = length content" "length content < COPY_A_BUFFER"
    and al: "start_pos \<le> pos" "(pos - start_pos) mod bufsize = 0"
    and buf: "buf = take (length buf) (drop pos content)" "pos + length buf \<le> end_pos" "buf \<noteq> []"
    and cnt: "count_list (drop (pos + length buf) content) d \<le> n0"
             "n_lines = n0 - count_list (drop (pos + length buf) content) d"
  shows "\<exists>rp. file_lines_loop B bufsize nm d content start_pos end_pos pos buf n_lines read_pos out
           = Return (True, out @ drop_lines d (count_list (drop start_pos content) d - n0)
                                  (drop start_pos content), rp, [])"
  using al buf cnt
proof (induction pos arbitrary: buf n_lines read_pos rule: less_induct)
  case (less pos)
  let ?S = "drop (pos + length buf) content"
  let ?P = "take (pos - start_pos) (drop start_pos content)"
  let ?X = "drop start_pos content"
  have X: "?X = ?P @ buf @ ?S"
  proof -
    have "?X = ?P @ drop (pos - start_pos) ?X" by (simp only: append_take_drop_id)
    also have "drop (pos - start_pos) ?X = drop pos content"
      using less.prems(1) by simp
    also have "drop pos content = take (length buf) (drop pos content) @ drop (length buf) (drop pos content)"
      by (simp only: append_take_drop_id)
    also have "\<dots> = buf @ ?S"
      using less.prems(3) by (simp add: add.commute)
    finally show ?thesis .
  qed
  have cX: "count_list ?X d = count_list ?P d + count_list buf d + count_list ?S d"
    by (subst X) simp
  have nl: "n_lines + count_list ?S d = n0" using less.prems by simp
  have sp: "COPY_TO_EOF \<noteq> k \<and> COPY_A_BUFFER \<noteq> k" if "k \<le> length content" for k
    using that len(2) by (auto simp: COPY_TO_EOF_def COPY_A_BUFFER_def UINTMAX_MAX_def)
  show ?case
  proof (cases "n_lines < count_list buf d")
    case True
    from file_lines_scan_found [of "length buf" buf n_lines d] True obtain i where
      i: "i < length buf" "file_lines_scan buf d (length buf) n_lines = Inl i"
         "drop (Suc i) buf = drop_lines d (count_list buf d - n_lines) buf"
      by auto
    have k: "count_list ?X d - n0 = count_list ?P d + (count_list buf d - n_lines)"
      using cX nl True by simp
    have "drop_lines d (count_list ?X d - n0) ?X = drop (Suc i) buf @ ?S"
      using True by (subst X, subst k) (simp add: drop_lines_append i(3))
    moreover
    have "end_pos - (pos + length buf) \<le> length content" using len by simp
    from sp [OF this] add_dumped_limited [OF B, of "end_pos - (pos + length buf)" read_pos nm content "pos + length buf" "out @ drop (i + 1) buf"]
    obtain rp where "add_dumped read_pos [] (dump_remainder B False False nm (reg_stream content (pos + length buf))
            (end_pos - (pos + length buf)) (out @ drop (i + 1) buf))
      = Return (True, (out @ drop (i + 1) buf) @ take (end_pos - (pos + length buf)) ?S, rp, [])"
      by auto
    moreover have "take (end_pos - (pos + length buf)) ?S = ?S"
      using len by simp
    ultimately show ?thesis
      using i(2) by (subst file_lines_loop.simps) simp
  next
    case False
    then have le: "count_list buf d \<le> n_lines" by simp
    from file_lines_scan_not_found [of "length buf" buf d n_lines] le
    have sc: "file_lines_scan buf d (length buf) n_lines = Inr (n_lines - count_list buf d)"
      by simp
    show ?thesis
    proof (cases "pos = start_pos")
      case True
      then have "?P = []" by simp
      with cX nl le have "count_list ?X d - n0 = 0" by simp
      then have d0: "drop_lines d (count_list ?X d - n0) ?X = ?X" by simp
      have "end_pos \<le> length content" using len by simp
      from sp [OF this] add_dumped_limited [OF B, of end_pos start_pos nm content start_pos out]
      obtain rp where "add_dumped start_pos [] (dump_remainder B False False nm (reg_stream content start_pos) end_pos out)
        = Return (True, out @ take end_pos ?X, rp, [])"
        by auto
      moreover have "take end_pos ?X = ?X" using len by simp
      ultimately show ?thesis
        using sc True d0 by (subst file_lines_loop.simps) simp
    next
      case ne: False
      have dv: "bufsize dvd (pos - start_pos)"
        using less.prems(2) by (simp add: mod_0_imp_dvd)
      have "0 < pos - start_pos" using ne less.prems(1) by simp
      with dv have "bufsize \<le> pos - start_pos" by (rule dvd_imp_le)
      with less.prems(1) have ge: "start_pos + bufsize \<le> pos" by simp
      then have nb: "\<not> pos < bufsize" by simp
      let ?pos' = "pos - bufsize"
      let ?buf' = "take bufsize (drop ?pos' content)"
      from reg_read [OF bs, of content ?pos'] obtain s' where
        rd: "safe_read (reg_stream content ?pos') bufsize = (Inr ?buf', s')" by auto
      have lb: "length ?buf' = bufsize"
        using ge less.prems(4) len by simp
      have ne': "?buf' \<noteq> []" using lb bs by auto
      have S': "drop (?pos' + length ?buf') content = buf @ ?S"
      proof -
        have "?pos' + length ?buf' = pos" using lb nb by simp
        then have "drop (?pos' + length ?buf') content = drop pos content" by simp
        also have "\<dots> = take (length buf) (drop pos content) @ drop (length buf) (drop pos content)"
          by (simp only: append_take_drop_id)
        also have "\<dots> = buf @ ?S" using less.prems(3) by (simp add: add.commute)
        finally show ?thesis .
      qed
      have a1: "start_pos \<le> ?pos'" using ge by simp
      have "?pos' - start_pos = (pos - start_pos) - bufsize" by simp
      moreover have "bufsize dvd ((pos - start_pos) - bufsize)"
        using dv dvd_refl [of bufsize] by (rule dvd_diff_nat)
      ultimately have a2: "(?pos' - start_pos) mod bufsize = 0"
        by (simp only: dvd_imp_mod_0)
      have a3: "?buf' = take (length ?buf') (drop ?pos' content)" by (simp only: lb)
      have a4: "?pos' + length ?buf' \<le> end_pos"
        using lb nb less.prems(4) by simp
      have a5: "count_list (drop (?pos' + length ?buf') content) d \<le> n0"
        using S' le nl by simp
      have a6: "n_lines - count_list buf d = n0 - count_list (drop (?pos' + length ?buf') content) d"
        using S' le nl by simp
      have lt: "?pos' < pos" using bs nb by simp
      from less.IH [OF lt a1 a2 a3 a4 ne' a5 a6, of "?pos' + length ?buf'"]
      obtain rp where "file_lines_loop B bufsize nm d content start_pos end_pos ?pos' ?buf'
          (n_lines - count_list buf d) (?pos' + length ?buf') out
        = Return (True, out @ drop_lines d (count_list ?X d - n0) ?X, rp, [])"
        by auto
      with sc ne nb rd ne' show ?thesis
        by (subst file_lines_loop.simps) simp
    qed
  qed
qed

lemma file_lines_correct:
  assumes B: "0 < B" and pg: "0 < pagesize" and reg: "S_ISREG (st_mode sb)"
    and sp: "start_pos < length content" and len: "length content < COPY_A_BUFFER"
  shows "\<exists>rp. file_lines B pagesize nm d content sb N start_pos (length content) rp0 out
           = Return (True, out @ last_lines d N (drop start_pos content), rp, [])"
proof (cases "N = 0")
  case True
  then show ?thesis
    by (simp add: file_lines_def last_lines_def)
next
  case False
  let ?X = "drop start_pos content"
  let ?end = "length content"
  define bufsize where "bufsize = (if st_size sb mod int pagesize = 0 then max B pagesize else B)"
  have bs: "0 < bufsize" using B by (auto simp: bufsize_def max_def)
  define br where "br = (if (?end - start_pos) mod bufsize = 0 then bufsize
                              else (?end - start_pos) mod bufsize)"
  have br0: "0 < br" using bs by (simp add: br_def)
  have brle: "br \<le> ?end - start_pos"
  proof (cases "(?end - start_pos) mod bufsize = 0")
    case True
    then have "bufsize dvd (?end - start_pos)" by (simp add: mod_0_imp_dvd)
    moreover have "0 < ?end - start_pos" using sp by simp
    ultimately have "bufsize \<le> ?end - start_pos" by (rule dvd_imp_le)
    with True show ?thesis by (simp add: br_def)
  next
    case False
    then show ?thesis by (simp add: br_def)
  qed
  define pos where "pos = ?end - br"
  define buf where "buf = take br (drop pos content)"
  have lbuf: "length buf = br" using brle br0 sp by (simp add: buf_def pos_def)
  have bne: "buf \<noteq> []" using lbuf br0 by auto
  have al1: "start_pos \<le> pos" using brle sp unfolding pos_def by arith
  have "pos - start_pos = (?end - start_pos) - br" unfolding pos_def by arith
  moreover have "bufsize dvd ((?end - start_pos) - br)"
  proof (cases "(?end - start_pos) mod bufsize = 0")
    case True
    then have "bufsize dvd (?end - start_pos)" by (simp add: mod_0_imp_dvd)
    then have "bufsize dvd (?end - start_pos - bufsize)"
      using dvd_refl [of bufsize] by (rule dvd_diff_nat)
    with True show ?thesis by (simp add: br_def)
  next
    case False
    then have "br = (?end - start_pos) mod bufsize" by (simp add: br_def)
    then show ?thesis by (simp only: dvd_minus_mod)
  qed
  ultimately have al2: "(pos - start_pos) mod bufsize = 0" by (simp only: dvd_imp_mod_0)
  have pe: "pos + length buf = ?end" using lbuf brle sp unfolding pos_def by arith
  have b1: "buf = take (length buf) (drop pos content)" unfolding lbuf by (simp only: buf_def)
  have b2: "pos + length buf \<le> ?end" using pe by simp
  have dr: "drop (pos + length buf) content = []" using pe by simp
  have bX: "drop pos content = buf" using lbuf pe by (simp add: buf_def)
  have lastX: "last ?X = last buf"
  proof -
    have "?X = take (pos - start_pos) ?X @ drop (pos - start_pos) ?X"
      by (simp only: append_take_drop_id)
    also have "drop (pos - start_pos) ?X = buf" using al1 bX by simp
    finally show ?thesis using bne by (metis last_appendR)
  qed
  define n1 where "n1 = (if buf \<noteq> [] \<and> last buf \<noteq> d then N - 1 else N)"
  have c1: "count_list (drop (pos + length buf) content) d \<le> n1" by (simp add: dr)
  have c2: "n1 = n1 - count_list (drop (pos + length buf) content) d" by (simp add: dr)
  from file_lines_loop_correct [OF B bs refl len al1 al2 b1 b2 bne c1 c2, of nm "pos + length buf" out]
  obtain rp where lp: "file_lines_loop B bufsize nm d content start_pos ?end pos buf n1 (pos + length buf) out
           = Return (True, out @ drop_lines d (count_list ?X d - n1) ?X, rp, [])"
    by blast
  have Xne: "?X \<noteq> []" using sp by simp
  have "length (lines_of d ?X) - N = count_list ?X d - n1"
    using False bne lastX Xne by (auto simp: length_lines_of n1_def)
  then have ll: "last_lines d N ?X = drop_lines d (count_list ?X d - n1) ?X"
    by (simp add: last_lines_eq)
  obtain s' where rd: "safe_read (reg_stream content pos) br = (Inr buf, s')"
    using reg_read [OF br0, of content pos] by (auto simp: buf_def)
  have nlt: "\<not> ?end < br" using brle sp by arith
  show ?thesis
    using False reg pg bs sp nlt rd lp ll
    apply (subst file_lines_def)
    apply (simp only: Let_def bufsize_def [symmetric] br_def [symmetric] pos_def [symmetric])
    apply (simp add: n1_def)
    done
qed

subsection \<open>The loops over \<open>memchr\<close>\<close>

lemma memchr_None: "memchr p d = None \<longleftrightarrow> d \<notin> set p"
  by (induction p) auto

lemma memchr_Some:
  "memchr p d = Some i \<Longrightarrow>
     i < length p \<and> p = take i p @ d # drop (Suc i) p \<and> d \<notin> set (take i p)"
proof (induction p arbitrary: i)
  case Nil
  then show ?case by simp
next
  case (Cons b p)
  show ?case
  proof (cases "b = d")
    case True
    with Cons.prems show ?thesis by simp
  next
    case False
    with Cons.prems obtain j where j: "memchr p d = Some j" "i = Suc j" by auto
    from Cons.IH [OF j(1)] j(2) False show ?thesis by auto
  qed
qed

lemma drop_lines_past:
  "d \<notin> set pre \<Longrightarrow> drop_lines d (Suc j) (pre @ d # rest) = drop_lines d j rest"
  by (simp add: drop_lines_append count_list_zero [THEN iffD2])

lemma count_list_past:
  "d \<notin> set pre \<Longrightarrow> count_list (pre @ d # rest) d = Suc (count_list rest d)"
  by (simp add: count_list_zero [THEN iffD2])

lemma count_newlines_eq: "count_newlines d p n = n + count_list p d"
proof (induction d p n rule: count_newlines.induct)
  case (1 d p n)
  show ?case
  proof (cases "memchr p d")
    case None
    then have "count_list p d = 0" by (simp add: memchr_None count_list_zero)
    with None show ?thesis by (subst count_newlines.simps) simp
  next
    case (Some i)
    from memchr_Some [OF Some] have
      m: "p = take i p @ d # drop (Suc i) p" "d \<notin> set (take i p)" by auto
    have "count_list p d = Suc (count_list (drop (Suc i) p) d)"
      using count_list_past [OF m(2), of "drop (Suc i) p"] m(1) by simp
    with "1.IH" [OF Some] Some show ?thesis
      by (subst count_newlines.simps) simp
  qed
qed

lemma skip_newlines_eq:
  "j \<le> count_list p d \<Longrightarrow> skip_newlines d p j = Some (drop_lines d j p)"
proof (induction j arbitrary: p)
  case 0
  then show ?case by simp
next
  case (Suc j)
  then have "d \<in> set p" using count_list_zero [of p d] by auto
  then obtain i where Some: "memchr p d = Some i"
    using memchr_None [of p d] by (cases "memchr p d") auto
  from memchr_Some [OF Some] have
    m: "p = take i p @ d # drop (Suc i) p" "d \<notin> set (take i p)" by auto
  have c: "count_list p d = Suc (count_list (drop (Suc i) p) d)"
    using count_list_past [OF m(2), of "drop (Suc i) p"] m(1) by simp
  have "drop_lines d (Suc j) p = drop_lines d j (drop (Suc i) p)"
    using drop_lines_past [OF m(2), of j "drop (Suc i) p"] m(1) by simp
  with Suc.IH [of "drop (Suc i) p"] Suc.prems c Some show ?case by simp
qed

lemma start_lines_scan_eq:
  "0 < n \<Longrightarrow> start_lines_scan d p n =
     (if n \<le> count_list p d then Inl (drop_lines d n p) else Inr (n - count_list p d))"
proof (induction d p n rule: start_lines_scan.induct)
  case (1 d p n)
  show ?case
  proof (cases "memchr p d")
    case None
    then have "count_list p d = 0" by (simp add: memchr_None count_list_zero)
    with None "1.prems" show ?thesis by (subst start_lines_scan.simps) simp
  next
    case (Some i)
    from memchr_Some [OF Some] have
      m: "p = take i p @ d # drop (Suc i) p" "d \<notin> set (take i p)" by auto
    have c: "count_list p d = Suc (count_list (drop (Suc i) p) d)"
      using count_list_past [OF m(2), of "drop (Suc i) p"] m(1) by simp
    obtain k where k: "n = Suc k" using "1.prems" by (cases n) auto
    have dl: "drop_lines d n p = drop_lines d k (drop (Suc i) p)"
      using drop_lines_past [OF m(2), of k "drop (Suc i) p"] m(1) k by simp
    show ?thesis
    proof (cases "k = 0")
      case True
      with Some k c dl show ?thesis
        by (subst start_lines_scan.simps) simp
    next
      case False
      from "1.IH" [OF Some refl refl] False k "1.prems"
      have "start_lines_scan d (drop (Suc i) p) k =
              (if k \<le> count_list (drop (Suc i) p) d then Inl (drop_lines d k (drop (Suc i) p))
               else Inr (k - count_list (drop (Suc i) p) d))"
        by simp
      with Some k c dl False show ?thesis
        by (subst start_lines_scan.simps) simp
    qed
  qed
qed

subsection \<open>The ring of line buffers gives the last lines\<close>

text \<open>
  The invariant of the read loop of \<open>pipe_lines\<close> after the bytes \<open>seen\<close>: every buffer's
  \<open>nlines\<close> is the number of delimiters in it, \<open>total_lines\<close> is their sum, the list holds
  a suffix of \<open>seen\<close>, and once a buffer has been dropped the list holds more than
  \<open>n_lines\<close> delimiters.
\<close>

definition chain_bytes :: "linebuffer list \<Rightarrow> bytes" where
  "chain_bytes chain = concat (map buffer chain)"

definition counted :: "char \<Rightarrow> linebuffer \<Rightarrow> bool" where
  "counted d b = (nlines b = count_list (buffer b) d)"

definition lines_inv ::
  "char \<Rightarrow> nat \<Rightarrow> linebuffer list \<times> linebuffer \<times> nat \<Rightarrow> bytes \<Rightarrow> bool" where
  "lines_inv d N st seen =
     (case st of (front, lst, tot) \<Rightarrow>
        list_all (counted d) (front @ [lst]) \<and>
        tot = count_list (chain_bytes (front @ [lst])) d \<and>
        (\<exists>dropped. seen = dropped @ chain_bytes (front @ [lst]) \<and>
           (dropped \<noteq> [] \<longrightarrow> N < count_list (chain_bytes (front @ [lst])) d)) \<and>
        (buffer lst = [] \<longrightarrow> seen = []))"

lemma count_list_concat:
  "count_list (concat xss) d = sum_list (map (\<lambda>xs. count_list xs d) xss)"
  by (induction xss) auto

lemma chain_bytes_simps [simp]:
  "chain_bytes [] = []"
  "chain_bytes (b # bs) = buffer b @ chain_bytes bs"
  "chain_bytes (as @ bs) = chain_bytes as @ chain_bytes bs"
  by (simp_all add: chain_bytes_def)

lemma lines_inv_init: "lines_inv d N ([], \<lparr>buffer = [], nlines = 0\<rparr>, 0) []"
  by (simp add: lines_inv_def counted_def)

lemma pipe_lines_add_inv:
  assumes inv: "lines_inv d N st seen" and ne: "buf \<noteq> []"
  shows "lines_inv d N (pipe_lines_add B d N st buf) (seen @ buf)"
proof -
  obtain front lst tot where st: "st = (front, lst, tot)" by (cases st) auto
  from inv st obtain dropped where
    c: "list_all (counted d) front" "counted d lst" and
    t: "tot = count_list (chain_bytes front @ buffer lst) d" and
    s: "seen = dropped @ chain_bytes front @ buffer lst" and
    dr: "dropped \<noteq> [] \<longrightarrow> N < count_list (chain_bytes front @ buffer lst) d"
    by (auto simp: lines_inv_def)
  let ?tmp = "\<lparr>buffer = buf, nlines = count_list buf d\<rparr>"
  have ctmp: "counted d ?tmp" by (simp add: counted_def)
  show ?thesis
  proof (cases "length buf + length (buffer lst) < B")
    case True
    with st c t s dr ne show ?thesis
      by (auto simp: pipe_lines_add_def lines_inv_def count_newlines_eq counted_def Let_def)
  next
    case False
    show ?thesis
    proof (cases "tot + count_list buf d - nlines (hd (front @ [lst])) > N")
      case link: False
      with False st c t s dr ne show ?thesis
        by (auto simp: pipe_lines_add_def lines_inv_def count_newlines_eq counted_def Let_def)
    next
      case drp: True
      show ?thesis
      proof (cases front)
        case Nil
        with drp have "tot + count_list buf d - nlines lst > N" by simp
        with Nil c t have n: "N < count_list buf d" by (simp add: counted_def)
        have "seen @ buf = (dropped @ buffer lst) @ buf" using s Nil by simp
        with False drp st Nil n ne c t show ?thesis
          by (simp add: pipe_lines_add_def lines_inv_def count_newlines_eq counted_def Let_def)
      next
        case (Cons h front')
        with c have ch: "nlines h = count_list (buffer h) d" by (simp add: counted_def)
        from drp Cons have "tot + count_list buf d - nlines h > N" by simp
        with t ch Cons have n: "N < count_list (chain_bytes front' @ buffer lst @ buf) d"
          by simp
        from t ch Cons have
          t': "tot + count_list buf d - nlines h =
                 count_list (chain_bytes front' @ buffer lst @ buf) d" by simp
        have "seen @ buf = (dropped @ buffer h) @ chain_bytes front' @ buffer lst @ buf"
          using s Cons by simp
        with False drp st Cons n ne c t' show ?thesis
          by (simp add: pipe_lines_add_def lines_inv_def count_newlines_eq counted_def Let_def)
      qed
    qed
  qed
qed

lemma pipe_lines_read_clean:
  "clean s \<Longrightarrow> 0 < B \<Longrightarrow> lines_inv d N st seen \<Longrightarrow>
     \<exists>st'. pipe_lines_read B d N s st rp = (Inr (), st', rp + length (stream_data s)) \<and>
            lines_inv d N st' (seen @ stream_data s)"
proof (induction "stream_size s" arbitrary: s st seen rp rule: less_induct)
  case less
  obtain r s' where sr: "safe_read s B = (r, s')" by (cases "safe_read s B") auto
  from safe_read_clean_size [OF less.prems(1) less.prems(2) sr] obtain buf where
    r: "r = Inr buf" and cl: "clean s'" and sd: "stream_data s = buf @ stream_data s'" and
    sz: "buf \<noteq> [] \<longrightarrow> stream_size s' < stream_size s" and
    e: "buf = [] \<longrightarrow> stream_data s = []"
    by fastforce
  show ?case
  proof (cases "buf = []")
    case True
    with sr r e less.prems(3) show ?thesis
      by (subst pipe_lines_read.simps) simp
  next
    case False
    from pipe_lines_add_inv [OF less.prems(3) False]
    have inv': "lines_inv d N (pipe_lines_add B d N st buf) (seen @ buf)" .
    from sz False have "stream_size s' < stream_size s" by simp
    from less.hyps [OF this cl less.prems(2) inv', of "rp + length buf"]
    obtain st' where
      "pipe_lines_read B d N s' (pipe_lines_add B d N st buf) (rp + length buf) =
         (Inr (), st', rp + length buf + length (stream_data s'))"
      "lines_inv d N st' ((seen @ buf) @ stream_data s')" by auto
    with sr r False sd show ?thesis
      by (subst pipe_lines_read.simps) (simp add: add.assoc)
  qed
qed

lemma pipe_lines_skip_ok:
  "bs \<noteq> [] \<Longrightarrow> tot = sum_list (map nlines bs) \<Longrightarrow>
     \<exists>pre tmp rest.
        pipe_lines_skip N bs tot = Some (tmp # rest, sum_list (map nlines (tmp # rest))) \<and>
        bs = pre @ tmp # rest \<and> sum_list (map nlines rest) \<le> N \<and>
        (pre \<noteq> [] \<longrightarrow> N < sum_list (map nlines (tmp # rest)))"
proof (induction bs arbitrary: tot)
  case Nil
  then show ?case by simp
next
  case (Cons b bs)
  show ?case
  proof (cases "tot - nlines b > N")
    case False
    with Cons.prems show ?thesis
      by (intro exI [of _ "[]"] exI [of _ b] exI [of _ bs]) simp
  next
    case True
    with Cons.prems have s: "sum_list (map nlines bs) > N" by simp
    then have ne: "bs \<noteq> []" by auto
    from Cons.IH [OF ne refl] obtain pre tmp rest where
      k: "pipe_lines_skip N bs (sum_list (map nlines bs)) =
            Some (tmp # rest, sum_list (map nlines (tmp # rest)))"
      and bs: "bs = pre @ tmp # rest" and le: "sum_list (map nlines rest) \<le> N"
      and pr: "pre \<noteq> [] \<longrightarrow> N < sum_list (map nlines (tmp # rest))"
      by blast
    have big: "N < sum_list (map nlines (tmp # rest))"
    proof (cases "pre = []")
      case True
      with bs s show ?thesis by simp
    next
      case False
      with pr show ?thesis by simp
    qed
    from True Cons.prems k have
      "pipe_lines_skip N (b # bs) tot = Some (tmp # rest, sum_list (map nlines (tmp # rest)))"
      by simp
    with bs le big show ?thesis
      by (intro exI [of _ "b # pre"] exI [of _ tmp] exI [of _ rest]) simp
  qed
qed

lemma counted_sum:
  "list_all (counted d) bs \<Longrightarrow> sum_list (map nlines bs) = count_list (chain_bytes bs) d"
  by (induction bs) (auto simp: counted_def)

lemma chain_bytes_concat: "concat (map buffer bs) = chain_bytes bs"
  by (simp add: chain_bytes_def)

lemma pipe_lines_output:
  assumes inv: "lines_inv d N (front, lst, tot) seen"
    and ne: "buffer lst \<noteq> []" and N: "0 < N"
    and inc: "inc = (if last (buffer lst) \<noteq> d then 1 else 0)"
    and lst1: "lst1 = lst\<lparr>nlines := nlines lst + inc\<rparr>"
  shows "\<exists>tmp rest tot2 beg.
           pipe_lines_skip N (front @ [lst1]) (tot + inc) = Some (tmp # rest, tot2) \<and>
           (if tot2 > N then skip_newlines d (buffer tmp) (tot2 - N) else Some (buffer tmp))
             = Some beg \<and>
           beg @ concat (map buffer rest) = last_lines d N seen"
proof -
  from inv obtain dropped where
    c: "list_all (counted d) front" "counted d lst" and
    t: "tot = count_list (chain_bytes front @ buffer lst) d" and
    s: "seen = dropped @ chain_bytes front @ buffer lst" and
    dr: "dropped \<noteq> [] \<longrightarrow> N < count_list (chain_bytes front @ buffer lst) d"
    by (auto simp: lines_inv_def)
  let ?cb = "chain_bytes front @ buffer lst"
  have inc1: "inc \<le> 1" using inc by simp
  have b1: "buffer lst1 = buffer lst" and n1: "nlines lst1 = count_list (buffer lst) d + inc"
    using lst1 c(2) by (simp_all add: counted_def)
  have tot1: "tot + inc = sum_list (map nlines (front @ [lst1]))"
    using t n1 counted_sum [OF c(1)] by simp
  have "front @ [lst1] \<noteq> []" by simp
  from pipe_lines_skip_ok [OF this tot1, of N] obtain pre tmp rest where
    k: "pipe_lines_skip N (front @ [lst1]) (tot + inc) =
          Some (tmp # rest, sum_list (map nlines (tmp # rest)))"
    and ch: "front @ [lst1] = pre @ tmp # rest"
    and le: "sum_list (map nlines rest) \<le> N"
    and pr: "pre \<noteq> [] \<longrightarrow> N < sum_list (map nlines (tmp # rest))"
    by blast
  let ?tot2 = "sum_list (map nlines (tmp # rest))"
  have cb1: "chain_bytes (front @ [lst1]) = ?cb" using b1 by simp
  then have cb: "?cb = chain_bytes pre @ buffer tmp @ chain_bytes rest"
    using ch by simp
  have cpre: "list_all (counted d) pre \<and> pre @ butlast (tmp # rest) = front"
    using ch c(1) by (metis butlast_append butlast_snoc list.distinct(1) list_all_append)
  have cp: "sum_list (map nlines pre) = count_list (chain_bytes pre) d"
    using cpre counted_sum by blast
  have tt: "tot + inc = sum_list (map nlines pre) + ?tot2"
    using tot1 ch by simp
  have last_seen: "seen \<noteq> [] \<and> last seen = last (buffer lst)" using s ne by simp
  have L: "length (lines_of d seen) = count_list dropped d + (tot + inc)"
    using last_seen s t inc by (simp add: length_lines_of)
  have seen_cb: "last_lines d N seen = drop_lines d (tot + inc - N) ?cb"
  proof (cases "dropped = []")
    case True
    with s L show ?thesis by (simp add: last_lines_eq)
  next
    case False
    with dr t have "N < tot" by simp
    then have "\<not> (count_list dropped d + (tot + inc) - N \<le> count_list dropped d)"
      "count_list dropped d + (tot + inc) - N - count_list dropped d = tot + inc - N"
      by arith+
    with s L show ?thesis
      by (simp only: last_lines_eq drop_lines_append [of d _ dropped] if_False)
  qed
  show ?thesis
  proof (cases "?tot2 > N")
    case False
    with pr have "pre = []" by auto
    with tt False have "tot + inc - N = 0" by simp
    with seen_cb cb \<open>pre = []\<close> have "buffer tmp @ concat (map buffer rest) = last_lines d N seen"
      by (simp add: chain_bytes_concat)
    with k False show ?thesis by simp
  next
    case True
    have jle: "?tot2 - N \<le> count_list (buffer tmp) d"
    proof (cases "rest = []")
      case True
      with ch have "tmp = lst1" by simp
      with True n1 b1 inc1 N show ?thesis by simp
    next
      case False
      then have "tmp \<in> set front" using cpre by (cases rest) auto
      with c(1) have "nlines tmp = count_list (buffer tmp) d"
        by (auto simp: list_all_iff counted_def)
      with le show ?thesis by simp
    qed
    have k1: "\<not> (tot + inc - N \<le> count_list (chain_bytes pre) d)"
      "tot + inc - N - count_list (chain_bytes pre) d = ?tot2 - N"
      using tt cp True by arith+
    have "drop_lines d (tot + inc - N) ?cb =
            drop_lines d (?tot2 - N) (buffer tmp @ chain_bytes rest)"
      unfolding cb by (simp only: drop_lines_append [of d _ "chain_bytes pre"] k1 if_False)
    also have "\<dots> = drop_lines d (?tot2 - N) (buffer tmp) @ chain_bytes rest"
      using jle by (simp only: drop_lines_append [of d _ "buffer tmp"] if_True)
    finally have "drop_lines d (?tot2 - N) (buffer tmp) @ concat (map buffer rest)
                    = last_lines d N seen"
      using seen_cb by (simp add: chain_bytes_concat)
    with k True skip_newlines_eq [OF jle] show ?thesis by simp
  qed
qed

lemma last_lines_0 [simp]: "last_lines d 0 bs = []"
  by (simp add: last_lines_def)

lemma last_lines_Nil [simp]: "last_lines d k [] = []"
  by (simp add: last_lines_def)

lemma pipe_lines_correct:
  assumes cl: "clean s" and B: "0 < B"
  shows "pipe_lines B nm d s N rp out =
           Return (True, out @ last_lines d N (stream_data s), rp + length (stream_data s), [])"
proof -
  from pipe_lines_read_clean [OF cl B lines_inv_init, of d N rp] obtain st' where
    r: "pipe_lines_read B d N s ([], \<lparr>buffer = [], nlines = 0\<rparr>, 0) rp =
          (Inr (), st', rp + length (stream_data s))"
    and inv: "lines_inv d N st' (stream_data s)" by auto
  obtain front lst tot where st: "st' = (front, lst, tot)" by (cases st') auto
  show ?thesis
  proof (cases "buffer lst = [] \<or> N = 0")
    case True
    with inv st have "last_lines d N (stream_data s) = []"
      by (auto simp: lines_inv_def)
    with True r st show ?thesis
      by (auto simp: pipe_lines_def read_failed_def)
  next
    case False
    then have ne: "buffer lst \<noteq> []" and N: "0 < N" by auto
    define inc :: nat where "inc = (if last (buffer lst) \<noteq> d then 1 else 0)"
    define lst1 where "lst1 = lst\<lparr>nlines := nlines lst + inc\<rparr>"
    from pipe_lines_output [OF inv [unfolded st] ne N inc_def lst1_def]
    obtain tmp rest tot2 beg where
      k: "pipe_lines_skip N (front @ [lst1]) (tot + inc) = Some (tmp # rest, tot2)"
      and b: "(if tot2 > N then skip_newlines d (buffer tmp) (tot2 - N) else Some (buffer tmp))
                = Some beg"
      and o: "beg @ concat (map buffer rest) = last_lines d N (stream_data s)"
      by blast
    show ?thesis
    proof (cases "last (buffer lst) \<noteq> d")
      case True
      with k b o r st ne N show ?thesis
        by (simp add: pipe_lines_def read_failed_def Let_def inc_def lst1_def)
    next
      case False
      with k b o r st ne N show ?thesis
        by (simp add: pipe_lines_def read_failed_def Let_def inc_def lst1_def)
    qed
  qed
qed


subsection \<open>C2: the last lines of a file and of a pipe\<close>

lemma lines_of_shape:
  "list_all (\<lambda>l. l \<noteq> [] \<and> d \<notin> set (butlast l)) (lines_of d bs) \<and>
   list_all (\<lambda>l. last l = d) (butlast (lines_of d bs))"
  by (induction bs) (auto split: list.splits)

lemma last_lines_min:
  "last_lines d (min N (length (lines_of d bs))) bs = last_lines d N bs"
  by (simp add: last_lines_def min_def)

definition reg_stat :: "int \<Rightarrow> stat" where
  "reg_stat sz =
     \<lparr>st_dev = 1, st_ino = 77, st_mode = (S_IFREG, 420), st_size = sz, st_blksize = 4096,
      st_mtime = (9, 0)\<rparr>"

text \<open>
  C2. \<open>file_lines\<close> on a regular file, called as \<open>tail_lines\<close> calls it (the current
  position before the end of the file), with \<open>N\<close> lines, on content of \<open>L\<close> lines from the
  current position, writes exactly the last \<open>min N L\<close> lines and returns \<open>true\<close>;
  \<open>pipe_lines\<close> on an input read without error until its end does the same; and in \<open>L\<close>
  bytes after the last delimiter count as one line.
\<close>

theorem last_lines_of_input:
  assumes "0 < B" and "0 < pagesize" and "S_ISREG (st_mode sb)"
    and "start_pos < length content" and "length content < COPY_A_BUFFER" and "clean s"
  shows "(\<exists>rp. file_lines B pagesize nm d content sb N start_pos (length content) rp0 out =
            Return (True,
              out @ last_lines d (min N (length (lines_of d (drop start_pos content))))
                      (drop start_pos content), rp, [])) \<and>
         pipe_lines B nm d s N rp0 out =
            Return (True,
              out @ last_lines d (min N (length (lines_of d (stream_data s)))) (stream_data s),
              rp0 + length (stream_data s), []) \<and>
         length (lines_of d bs) =
            count_list bs d + (if bs \<noteq> [] \<and> last bs \<noteq> d then 1 else 0)"
proof (intro conjI)
  show "\<exists>rp. file_lines B pagesize nm d content sb N start_pos (length content) rp0 out =
            Return (True,
              out @ last_lines d (min N (length (lines_of d (drop start_pos content))))
                      (drop start_pos content), rp, [])"
    using file_lines_correct [OF assms(1-5), of nm d N rp0 out]
    by (simp only: last_lines_min)
  show "pipe_lines B nm d s N rp0 out =
            Return (True,
              out @ last_lines d (min N (length (lines_of d (stream_data s)))) (stream_data s),
              rp0 + length (stream_data s), [])"
    using pipe_lines_correct [OF assms(6) assms(1), of nm d N rp0 out]
    by (simp only: last_lines_min)
  show "length (lines_of d bs) =
            count_list bs d + (if bs \<noteq> [] \<and> last bs \<noteq> d then 1 else 0)"
    by (rule length_lines_of)
qed

theorem last_lines_of_input_witness:
  "(\<exists>rp. file_lines 4 2 ''f'' CHR 0x0A ''one\<newline>two\<newline>three'' (reg_stat 13) 2 0
            (length ''one\<newline>two\<newline>three'') 0 [] =
      Return (True, ''two\<newline>three'', rp, [])) \<and>
   pipe_lines 4 ''f'' CHR 0x0A [Data ''one\<newline>tw'', Data ''o\<newline>three''] 2 0 [] =
      Return (True, ''two\<newline>three'', length ''one\<newline>two\<newline>three'', []) \<and>
   length (lines_of CHR 0x0A ''one\<newline>two\<newline>three'') = 3"
  using last_lines_of_input [of 4 2 "reg_stat 13" 0 "''one\<newline>two\<newline>three''"
      "[Data ''one\<newline>tw'', Data ''o\<newline>three'']" "''f''" "CHR 0x0A" 2 0 "[]"
      "''one\<newline>two\<newline>three''"]
  by (simp add: reg_stat_def S_ISREG_def COPY_A_BUFFER_def UINTMAX_MAX_def last_lines_def)



subsection \<open>Lines from the start and lines from the end of a regular file\<close>

lemma start_lines_loop_clean:
  "clean s \<Longrightarrow> 0 < B \<Longrightarrow> 0 < n \<Longrightarrow>
     \<exists>t s' rp' out'.
        start_lines_loop B nm d s n rp out = (t, s', rp', out', []) \<and> clean s' \<and>
        (t = 0 \<or> t = - 1 \<and> s' = []) \<and>
        out' @ stream_data s' = out @ drop_lines d n (stream_data s) \<and>
        rp' + length (stream_data s') = rp + length (stream_data s)"
proof (induction "stream_size s" arbitrary: s n rp rule: less_induct)
  case less
  obtain r s1 where sr: "safe_read s B = (r, s1)" by (cases "safe_read s B") auto
  from safe_read_clean_size [OF less.prems(1) less.prems(2) sr] obtain buf where
    r: "r = Inr buf" and cl: "clean s1" and sd: "stream_data s = buf @ stream_data s1" and
    sz: "buf \<noteq> [] \<longrightarrow> stream_size s1 < stream_size s" and
    e0: "buf = [] \<longleftrightarrow> s = []"
    by blast
  have e: "buf = [] \<longrightarrow> s = [] \<and> s1 = []"
    using e0 sr by auto
  show ?case
  proof (cases "buf = []")
    case True
    with sr r e show ?thesis
      by (subst start_lines_loop.simps) simp
  next
    case False
    note scan = start_lines_scan_eq [OF less.prems(3), of d buf]
    show ?thesis
    proof (cases "n \<le> count_list buf d")
      case True
      with sr r False scan sd cl show ?thesis
        by (subst start_lines_loop.simps) (simp add: drop_lines_append)
    next
      case gt: False
      then have n': "0 < n - count_list buf d" by simp
      from sz False have "stream_size s1 < stream_size s" by simp
      from less.hyps [OF this cl less.prems(2) n', of "rp + length buf"]
      obtain t s' rp' out' where
        "start_lines_loop B nm d s1 (n - count_list buf d) (rp + length buf) out
           = (t, s', rp', out', [])" "clean s'" "t = 0 \<or> t = - 1 \<and> s' = []"
        "out' @ stream_data s' = out @ drop_lines d (n - count_list buf d) (stream_data s1)"
        "rp' + length (stream_data s') = rp + length buf + length (stream_data s1)"
        by blast
      with sr r False scan gt sd show ?thesis
        by (subst start_lines_loop.simps) (simp add: drop_lines_append)
    qed
  qed
qed

lemma tail_lines_from_start:
  assumes cl: "clean (fd_stream fdsc)" and B: "0 < B" and fs: "from_start g"
    and n: "n \<noteq> UINTMAX_MAX"
  shows "tail_lines B g nm (Inr stats) fdsc n rp out =
           Return (True, out @ drop_lines (line_end g) n (stream_data (fd_stream fdsc)),
                   rp + length (stream_data (fd_stream fdsc)), [])"
proof (cases "n = 0")
  case True
  with fs n show ?thesis
    by (simp add: tail_lines_def start_lines_def dump_remainder_def
        dump_to_eof [OF cl B] add_dumped_def)
next
  case False
  then have "0 < n" by simp
  from start_lines_loop_clean [OF cl B this, of nm "line_end g" rp out]
  obtain t s' rp' out' where
    l: "start_lines_loop B nm (line_end g) (fd_stream fdsc) n rp out = (t, s', rp', out', [])"
    and c: "clean s'" and t: "t = 0 \<or> t = - 1 \<and> s' = []"
    and o: "out' @ stream_data s' = out @ drop_lines (line_end g) n (stream_data (fd_stream fdsc))"
    and p: "rp' + length (stream_data s') = rp + length (stream_data (fd_stream fdsc))"
    by blast
  show ?thesis
  proof (cases "t = 0")
    case True
    with fs n False l o p show ?thesis
      by (simp add: tail_lines_def start_lines_def dump_remainder_def
          dump_to_eof [OF c B] add_dumped_def)
  next
    case ne: False
    with t have "t = - 1" "s' = []" by auto
    with fs n False l o p show ?thesis
      by (simp add: tail_lines_def start_lines_def)
  qed
qed

lemma tail_lines_from_end:
  assumes B: "0 < B" and pg: "0 < page_size g" and fs: "\<not> from_start g"
    and reg: "S_ISREG (st_mode stats)" and len: "length content < COPY_A_BUFFER"
  shows "\<exists>rp. tail_lines B g nm (Inr stats) (Regular content 0) n 0 out =
           Return (True, out @ last_lines (line_end g) n content, rp, [])"
proof (cases "presume_input_pipe g \<or> content = []")
  case True
  have "clean (reg_stream content 0)" by simp
  from pipe_lines_correct [OF this B, of nm "line_end g" n 0 out] True fs reg
  show ?thesis
    by (auto simp: tail_lines_def Let_def)
next
  case False
  then have "0 < length content" by simp
  from file_lines_correct [OF B pg reg this len, of nm "line_end g" n "length content" out]
  obtain rp where
    "file_lines B (page_size g) nm (line_end g) content stats n 0 (length content)
       (length content) out = Return (True, out @ last_lines (line_end g) n content, rp, [])"
    by auto
  with False fs reg show ?thesis
    by (auto simp: tail_lines_def Let_def)
qed

lemma length_lines_of_le: "length (lines_of d bs) \<le> length bs"
  by (induction bs) (auto split: list.splits)

lemma tail_plus_lines:
  assumes "0 < B" "count_lines g" "length content < COPY_A_BUFFER"
    and "N \<le> length (lines_of (line_end g) content) + 1"
  shows "tail B (g\<lparr>from_start := True\<rparr>) nm (Inr stats) (Regular content 0)
             (adjust_n_units True N) out =
           Return (True, out @ concat (drop (N - 1) (lines_of (line_end g) content)),
                   length content, [])"
proof -
  have "N \<le> length content + 1"
    using assms(4) length_lines_of_le [of "line_end g" content] by simp
  with assms(3) have N: "N < UINTMAX_MAX"
    by (simp add: COPY_A_BUFFER_def)
  then have a: "adjust_n_units True N = N - 1" "N - 1 \<noteq> UINTMAX_MAX"
    by (auto simp: adjust_n_units_def)
  have cl: "clean (fd_stream (Regular content 0))" by simp
  have fs: "from_start (g\<lparr>from_start := True\<rparr>)" by simp
  from tail_lines_from_start [OF cl assms(1) fs a(2), of nm stats 0 out] assms(2) a(1)
  show ?thesis
    by (simp add: tail_def concat_drop_lines_of)
qed

lemma tail_last_lines:
  assumes "0 < B" "0 < page_size g" "count_lines g" "S_ISREG (st_mode stats)"
    and "length content < COPY_A_BUFFER"
  shows "\<exists>rp. tail B (g\<lparr>from_start := False\<rparr>) nm (Inr stats) (Regular content 0)
             (adjust_n_units False M) out =
           Return (True, out @ last_lines (line_end g) M content, rp, [])"
proof -
  have fs: "\<not> from_start (g\<lparr>from_start := False\<rparr>)" by simp
  have pg: "0 < page_size (g\<lparr>from_start := False\<rparr>)" using assms(2) by simp
  from tail_lines_from_end [OF assms(1) pg fs assms(4,5), of nm M out] assms(3)
  show ?thesis
    by (simp add: tail_def adjust_n_units_def)
qed

definition lines_globals :: globals where
  "lines_globals =
     \<lparr>reopen_inaccessible_files = False, count_lines = True, follow_mode = Follow_descriptor,
      forever = False, from_start = False, print_headers = False, line_end = CHR 0x0A,
      max_n_unchanged_stats_between_opens = 5, nbpids = 0, page_size = 4096,
      presume_input_pipe = False, disable_inotify = False\<rparr>"


subsection \<open>C8: \<open>+N\<close> and the last \<open>M\<close> lines when \<open>N + M\<close> is the line count plus 1\<close>

text \<open>
  C8 (as the code has it). For a regular file of \<open>L\<close> lines read from its start, when
  \<open>N + M = L + 1\<close> the run with \<open>+N\<close> and the run with the last \<open>M\<close> lines both succeed and
  write the same bytes: the lines of the file from line \<open>N\<close> on. The first \<open>N - 1\<close> lines
  followed by these bytes are the whole file.
\<close>

theorem plus_N_equals_last_M:
  assumes "0 < B" "0 < page_size g" "count_lines g" "S_ISREG (st_mode stats)"
    and "length content < COPY_A_BUFFER"
    and "N + M = length (lines_of (line_end g) content) + 1"
  shows "tail B (g\<lparr>from_start := True\<rparr>) nm (Inr stats) (Regular content 0)
             (adjust_n_units True N) out =
           Return (True, out @ concat (drop (N - 1) (lines_of (line_end g) content)),
                   length content, []) \<and>
         (\<exists>rp. tail B (g\<lparr>from_start := False\<rparr>) nm (Inr stats) (Regular content 0)
             (adjust_n_units False M) out =
           Return (True, out @ concat (drop (N - 1) (lines_of (line_end g) content)), rp, [])) \<and>
         concat (take (N - 1) (lines_of (line_end g) content)) @
           concat (drop (N - 1) (lines_of (line_end g) content)) = content"
proof (intro conjI)
  have "N \<le> length (lines_of (line_end g) content) + 1" using assms(6) by simp
  from tail_plus_lines [OF assms(1,3,5) this]
  show "tail B (g\<lparr>from_start := True\<rparr>) nm (Inr stats) (Regular content 0)
             (adjust_n_units True N) out =
           Return (True, out @ concat (drop (N - 1) (lines_of (line_end g) content)),
                   length content, [])" .
  have "length (lines_of (line_end g) content) - M = N - 1" using assms(6) by simp
  then have "last_lines (line_end g) M content =
               concat (drop (N - 1) (lines_of (line_end g) content))"
    by (simp add: last_lines_def)
  with tail_last_lines [OF assms(1-5), of nm M out]
  show "\<exists>rp. tail B (g\<lparr>from_start := False\<rparr>) nm (Inr stats) (Regular content 0)
             (adjust_n_units False M) out =
           Return (True, out @ concat (drop (N - 1) (lines_of (line_end g) content)), rp, [])"
    by simp
  have "concat (take (N - 1) (lines_of (line_end g) content) @
                drop (N - 1) (lines_of (line_end g) content)) = content"
    by (simp only: append_take_drop_id concat_lines_of)
  then show "concat (take (N - 1) (lines_of (line_end g) content)) @
           concat (drop (N - 1) (lines_of (line_end g) content)) = content"
    by (simp only: concat_append)
qed

theorem plus_N_equals_last_M_witness:
  "tail 4 (lines_globals\<lparr>from_start := True\<rparr>) ''f'' (Inr (reg_stat 6))
       (Regular ''a\<newline>b\<newline>c\<newline>'' 0) (adjust_n_units True 2) [] =
     Return (True, ''b\<newline>c\<newline>'', length ''a\<newline>b\<newline>c\<newline>'', []) \<and>
   (\<exists>rp. tail 4 (lines_globals\<lparr>from_start := False\<rparr>) ''f'' (Inr (reg_stat 6))
       (Regular ''a\<newline>b\<newline>c\<newline>'' 0) (adjust_n_units False 2) [] =
     Return (True, ''b\<newline>c\<newline>'', rp, [])) \<and>
   ''a\<newline>'' @ ''b\<newline>c\<newline>'' = ''a\<newline>b\<newline>c\<newline>''"
  using plus_N_equals_last_M [of 4 lines_globals "reg_stat 6" "''a\<newline>b\<newline>c\<newline>''" 2 2
      "''f''" "[]"]
  by (simp add: lines_globals_def reg_stat_def S_ISREG_def COPY_A_BUFFER_def UINTMAX_MAX_def)

text \<open>
  The file \<open>a\<newline>b\<newline>\<close> has two lines; with \<open>+2\<close> and then the last 1 line, each run
  writes \<open>b\<newline>\<close>: one after the other they write \<open>b\<newline>b\<newline>\<close>, and the second run on the
  output of the first writes \<open>b\<newline>\<close>. None of these is the whole file.
\<close>

theorem plus_N_then_last_M_counterexample:
  "2 + 1 = length (lines_of CHR 0x0A ''a\<newline>b\<newline>'') + 1 \<and>
   stdout_of (tail 8192 (lines_globals\<lparr>from_start := True\<rparr>) ''f'' (Inr (reg_stat 4))
       (Regular ''a\<newline>b\<newline>'' 0) (adjust_n_units True 2) []) = ''b\<newline>'' \<and>
   stdout_of (tail 8192 (lines_globals\<lparr>from_start := False\<rparr>) ''f'' (Inr (reg_stat 4))
       (Regular ''a\<newline>b\<newline>'' 0) (adjust_n_units False 1) []) = ''b\<newline>'' \<and>
   stdout_of (tail 8192 (lines_globals\<lparr>from_start := False\<rparr>) ''f'' (Inr (reg_stat 4))
       (Regular ''a\<newline>b\<newline>'' 0) (adjust_n_units False 1) ''b\<newline>'') = ''b\<newline>b\<newline>'' \<and>
   stdout_of (tail 8192 (lines_globals\<lparr>from_start := False\<rparr>) ''-'' (Inr (reg_stat 2))
       (Regular ''b\<newline>'' 0) (adjust_n_units False 1) []) = ''b\<newline>'' \<and>
   ''b\<newline>'' \<noteq> ''a\<newline>b\<newline>'' \<and> ''b\<newline>b\<newline>'' \<noteq> ''a\<newline>b\<newline>''"
proof -
  have h: "(0::nat) < 8192" "0 < page_size lines_globals" "count_lines lines_globals"
    "S_ISREG (st_mode (reg_stat 4))" "S_ISREG (st_mode (reg_stat 2))"
    "length ''a\<newline>b\<newline>'' < COPY_A_BUFFER" "length ''b\<newline>'' < COPY_A_BUFFER"
    "2 \<le> length (lines_of (line_end lines_globals) ''a\<newline>b\<newline>'') + 1"
    by (simp_all add: lines_globals_def reg_stat_def S_ISREG_def COPY_A_BUFFER_def
        UINTMAX_MAX_def)
  from tail_plus_lines [OF h(1,3,6,8), of "''f''" "reg_stat 4" "[]"]
  have a: "stdout_of (tail 8192 (lines_globals\<lparr>from_start := True\<rparr>) ''f'' (Inr (reg_stat 4))
       (Regular ''a\<newline>b\<newline>'' 0) (adjust_n_units True 2) []) = ''b\<newline>''"
    by (simp add: lines_globals_def)
  from tail_last_lines [OF h(1,2,3,4,6), of "''f''" 1 "[]"]
  have b: "stdout_of (tail 8192 (lines_globals\<lparr>from_start := False\<rparr>) ''f'' (Inr (reg_stat 4))
       (Regular ''a\<newline>b\<newline>'' 0) (adjust_n_units False 1) []) = ''b\<newline>''"
    by (auto simp: lines_globals_def last_lines_def)
  from tail_last_lines [OF h(1,2,3,4,6), of "''f''" 1 "''b\<newline>''"]
  have c: "stdout_of (tail 8192 (lines_globals\<lparr>from_start := False\<rparr>) ''f'' (Inr (reg_stat 4))
       (Regular ''a\<newline>b\<newline>'' 0) (adjust_n_units False 1) ''b\<newline>'') = ''b\<newline>b\<newline>''"
    by (auto simp: lines_globals_def last_lines_def)
  from tail_last_lines [OF h(1,2,3,5,7), of "''-''" 1 "[]"]
  have d: "stdout_of (tail 8192 (lines_globals\<lparr>from_start := False\<rparr>) ''-'' (Inr (reg_stat 2))
       (Regular ''b\<newline>'' 0) (adjust_n_units False 1) []) = ''b\<newline>''"
    by (auto simp: lines_globals_def last_lines_def)
  from a b c d show ?thesis by simp
qed



subsection \<open>What the ring of buffers retains\<close>

lemma pipe_bytes_read_states:
  "fst (snd (pipe_bytes_read B n s st rp)) = last (st # pipe_bytes_states B n s st)"
proof (induction B n s st rp rule: pipe_bytes_read.induct)
  case (1 B n s st rp)
  obtain r s' where sr: "safe_read s B = (r, s')" by (cases "safe_read s B") auto
  show ?case
  proof (cases r)
    case (Inl e)
    with sr show ?thesis
      by (subst pipe_bytes_read.simps, subst pipe_bytes_states.simps) simp
  next
    case (Inr buf)
    show ?thesis
    proof (cases "buf = []")
      case True
      with sr Inr show ?thesis
        by (subst pipe_bytes_read.simps, subst pipe_bytes_states.simps) simp
    next
      case False
      from "1.IH" [OF sr [symmetric] Inr False] sr Inr False show ?thesis
        by (subst pipe_bytes_read.simps, subst pipe_bytes_states.simps) simp
    qed
  qed
qed

lemma pipe_lines_read_states:
  "fst (snd (pipe_lines_read B d n s st rp)) = last (st # pipe_lines_states B d n s st)"
proof (induction B d n s st rp rule: pipe_lines_read.induct)
  case (1 B d n s st rp)
  obtain r s' where sr: "safe_read s B = (r, s')" by (cases "safe_read s B") auto
  show ?case
  proof (cases r)
    case (Inl e)
    with sr show ?thesis
      by (subst pipe_lines_read.simps, subst pipe_lines_states.simps) simp
  next
    case (Inr buf)
    show ?thesis
    proof (cases "buf = []")
      case True
      with sr Inr show ?thesis
        by (subst pipe_lines_read.simps, subst pipe_lines_states.simps) simp
    next
      case False
      from "1.IH" [OF sr [symmetric] Inr False] sr Inr False show ?thesis
        by (subst pipe_lines_read.simps, subst pipe_lines_states.simps) simp
    qed
  qed
qed

text \<open>
  In the list of \<open>pipe_bytes\<close> two buffers that follow each other hold \<open>BUFSIZ\<close> bytes
  or more together: a buffer is linked only when it does not fit into the last one.
\<close>

fun adjacent_full :: "nat \<Rightarrow> bytes list \<Rightarrow> bool" where
  "adjacent_full B [] = True"
| "adjacent_full B [x] = True"
| "adjacent_full B (x # y # zs) = (B \<le> length x + length y \<and> adjacent_full B (y # zs))"

lemma adjacent_full_tl: "adjacent_full B xs \<Longrightarrow> adjacent_full B (tl xs)"
  by (induction B xs rule: adjacent_full.induct) auto

lemma adjacent_full_link:
  "adjacent_full B (xs @ [l]) \<Longrightarrow> B \<le> length l + length b \<Longrightarrow> adjacent_full B (xs @ [l, b])"
  by (induction B xs rule: adjacent_full.induct) auto

lemma adjacent_full_grow:
  "adjacent_full B (xs @ [l]) \<Longrightarrow> adjacent_full B (xs @ [l @ b])"
  by (induction B xs rule: adjacent_full.induct) auto

lemma adjacent_full_sum:
  "adjacent_full B xs \<Longrightarrow> (length xs div 2) * B \<le> length (concat xs)"
proof (induction xs rule: induct_list012)
  case (3 x y zs)
  from 3(3) have xy: "B \<le> length x + length y" and "adjacent_full B (y # zs)" by auto
  then have "adjacent_full B zs" using adjacent_full_tl [of B "y # zs"] by simp
  from 3(1) [OF this] xy show ?case by simp
qed simp_all

lemma concat_bounded:
  "list_all (\<lambda>b. length b \<le> B) xs \<Longrightarrow> length (concat xs) \<le> length xs * B"
  by (induction xs) auto

text \<open>
  The invariant of the read loop of \<open>pipe_bytes\<close>: every buffer holds at most \<open>BUFSIZ\<close>
  bytes, neighbours hold \<open>BUFSIZ\<close> bytes or more together, \<open>total_bytes\<close> is the number of
  bytes in the list, and the list has at most \<open>2 * (n_bytes div BUFSIZ) + 2\<close> buffers.
\<close>

definition bytes_inv :: "nat \<Rightarrow> nat \<Rightarrow> bytes list \<times> bytes \<times> nat \<Rightarrow> bool" where
  "bytes_inv B N st =
     (case st of (front, lst, tot) \<Rightarrow>
        list_all (\<lambda>b. length b \<le> B) (front @ [lst]) \<and> adjacent_full B (front @ [lst]) \<and>
        tot = length (concat (front @ [lst])) \<and>
        length (front @ [lst]) \<le> 2 * (N div B) + 2)"

lemma list_all_tl: "list_all P xs \<Longrightarrow> list_all P (tl xs)"
  by (cases xs) auto

lemma bytes_inv_init: "bytes_inv B N ([], [], 0)"
  by (simp add: bytes_inv_def)

lemma pipe_bytes_add_inv:
  assumes inv: "bytes_inv B N st" and B: "0 < B" and len: "length buf \<le> B"
  shows "bytes_inv B N (pipe_bytes_add B N st buf)"
proof -
  obtain front lst tot where st: "st = (front, lst, tot)" by (cases st) auto
  from inv st have
    a: "list_all (\<lambda>b. length b \<le> B) (front @ [lst])" and
    adj: "adjacent_full B (front @ [lst])" and
    t: "tot = length (concat (front @ [lst]))" and
    k: "length (front @ [lst]) \<le> 2 * (N div B) + 2"
    by (auto simp: bytes_inv_def)
  show ?thesis
  proof (cases "length buf + length lst < B")
    case True
    with a t k adjacent_full_grow [OF adj, of buf] st show ?thesis
      by (simp add: pipe_bytes_add_def bytes_inv_def)
  next
    case False
    then have full: "B \<le> length lst + length buf" by simp
    let ?chain = "front @ [lst]"
    have adj': "adjacent_full B (?chain @ [buf])"
      using adjacent_full_link [OF adj full] by simp
    have all': "list_all (\<lambda>b. length b \<le> B) (?chain @ [buf])"
      using a len by simp
    have tl_chain: "tl (?chain @ [buf]) = tl ?chain @ [buf]" by (cases front) auto
    have hd_tl: "length (concat (?chain @ [buf])) =
                   length (hd ?chain) + length (concat (tl ?chain @ [buf]))"
      by (cases front) auto
    show ?thesis
    proof (cases "tot + length buf - length (hd ?chain) > N")
      case True
      have "list_all (\<lambda>b. length b \<le> B) (tl (?chain @ [buf]))"
        using all' by (rule list_all_tl)
      then have "list_all (\<lambda>b. length b \<le> B) (tl ?chain @ [buf])"
        by (simp only: tl_chain)
      moreover have "adjacent_full B (tl ?chain @ [buf])"
        using adjacent_full_tl [OF adj'] tl_chain by simp
      moreover have "tot + length buf - length (hd ?chain) = length (concat (tl ?chain @ [buf]))"
        using t hd_tl by simp
      moreover have "length (tl ?chain @ [buf]) \<le> 2 * (N div B) + 2"
        using k by simp
      ultimately show ?thesis
        using True False st
        by (simp add: pipe_bytes_add_def bytes_inv_def Let_def)
    next
      case keep: False
      have "tot + length buf = length (hd ?chain) + length (concat (tl ?chain @ [buf]))"
        using t hd_tl by simp
      with keep have le: "length (concat (tl ?chain @ [buf])) \<le> N" by simp
      have "adjacent_full B (tl ?chain @ [buf])"
        using adjacent_full_tl [OF adj'] tl_chain by simp
      from adjacent_full_sum [OF this] le
      have "(length (tl ?chain @ [buf]) div 2) * B \<le> N" by simp
      then have "length (tl ?chain @ [buf]) div 2 \<le> N div B"
        using B by (simp add: less_eq_div_iff_mult_less_eq)
      then have "length (?chain @ [buf]) \<le> 2 * (N div B) + 2"
        by simp
      with keep False st all' adj' t show ?thesis
        by (simp add: pipe_bytes_add_def bytes_inv_def Let_def)
    qed
  qed
qed

lemma pipe_bytes_states_inv:
  "bytes_inv B N st \<Longrightarrow> 0 < B \<Longrightarrow> st' \<in> set (pipe_bytes_states B N s st) \<Longrightarrow> bytes_inv B N st'"
proof (induction B N s st rule: pipe_bytes_states.induct)
  case (1 B N s st)
  obtain r s1 where sr: "safe_read s B = (r, s1)" by (cases "safe_read s B") auto
  show ?case
  proof (cases r)
    case (Inl e)
    with sr "1.prems"(3) show ?thesis
      by (subst (asm) pipe_bytes_states.simps) simp
  next
    case (Inr buf)
    show ?thesis
    proof (cases "buf = []")
      case True
      with sr Inr "1.prems"(3) show ?thesis
        by (subst (asm) pipe_bytes_states.simps) simp
    next
      case False
      from sr Inr have "length buf \<le> B" by (simp add: safe_read_length)
      from pipe_bytes_add_inv [OF "1.prems"(1,2) this]
      have inv': "bytes_inv B N (pipe_bytes_add B N st buf)" .
      from "1.prems"(3) sr Inr False have
        "st' = pipe_bytes_add B N st buf \<or>
         st' \<in> set (pipe_bytes_states B N s1 (pipe_bytes_add B N st buf))"
        by (subst (asm) pipe_bytes_states.simps) simp
      with inv' "1.IH" [OF sr [symmetric] Inr False inv' "1.prems"(2)] show ?thesis
        by blast
    qed
  qed
qed

lemma bytes_inv_bound:
  assumes "bytes_inv B N (front, lst, tot)" "0 < B"
  shows "tot = length (concat (front @ [lst])) \<and> tot \<le> 2 * N + 2 * B \<and>
         length (front @ [lst]) \<le> 2 * (N div B) + 2 \<and>
         list_all (\<lambda>b. length b \<le> B) (front @ [lst])"
proof -
  from assms(1) have
    a: "list_all (\<lambda>b. length b \<le> B) (front @ [lst])" and
    t: "tot = length (concat (front @ [lst]))" and
    k: "length (front @ [lst]) \<le> 2 * (N div B) + 2"
    by (auto simp: bytes_inv_def)
  from concat_bounded [OF a] t have "tot \<le> length (front @ [lst]) * B" by simp
  also have "\<dots> \<le> (2 * (N div B) + 2) * B" using k by (rule mult_le_mono1)
  also have "\<dots> = 2 * ((N div B) * B) + 2 * B" by (simp add: algebra_simps)
  also have "\<dots> \<le> 2 * N + 2 * B" by simp
  finally show ?thesis using a t k by simp
qed

definition lines_shape :: "nat \<Rightarrow> char \<Rightarrow> linebuffer list \<times> linebuffer \<times> nat \<Rightarrow> bool" where
  "lines_shape B d st =
     (case st of (front, lst, tot) \<Rightarrow>
        list_all (\<lambda>b. length (buffer b) \<le> B \<and> nlines b = count_list (buffer b) d)
          (front @ [lst]) \<and>
        tot = sum_list (map nlines (front @ [lst])))"

lemma pipe_lines_add_shape:
  assumes inv: "lines_shape B d st" and len: "length buf \<le> B"
  shows "lines_shape B d (pipe_lines_add B d N st buf)"
proof -
  obtain front lst tot where st: "st = (front, lst, tot)" by (cases st) auto
  show ?thesis
  proof (cases front)
    case Nil
    with inv len st show ?thesis
      by (auto simp: lines_shape_def pipe_lines_add_def count_newlines_eq Let_def)
  next
    case (Cons h front')
    with inv len st show ?thesis
      by (auto simp: lines_shape_def pipe_lines_add_def count_newlines_eq Let_def)
  qed
qed

lemma pipe_lines_states_shape:
  "lines_shape B d st \<Longrightarrow> st' \<in> set (pipe_lines_states B d N s st) \<Longrightarrow> lines_shape B d st'"
proof (induction B d N s st rule: pipe_lines_states.induct)
  case (1 B d N s st)
  obtain r s1 where sr: "safe_read s B = (r, s1)" by (cases "safe_read s B") auto
  show ?case
  proof (cases r)
    case (Inl e)
    with sr "1.prems"(2) show ?thesis
      by (subst (asm) pipe_lines_states.simps) simp
  next
    case (Inr buf)
    show ?thesis
    proof (cases "buf = []")
      case True
      with sr Inr "1.prems"(2) show ?thesis
        by (subst (asm) pipe_lines_states.simps) simp
    next
      case False
      from sr Inr have "length buf \<le> B" by (simp add: safe_read_length)
      from pipe_lines_add_shape [OF "1.prems"(1) this]
      have inv': "lines_shape B d (pipe_lines_add B d N st buf)" .
      from "1.prems"(2) sr Inr False have
        "st' = pipe_lines_add B d N st buf \<or>
         st' \<in> set (pipe_lines_states B d N s1 (pipe_lines_add B d N st buf))"
        by (subst (asm) pipe_lines_states.simps) simp
      with inv' "1.IH" [OF sr [symmetric] Inr False inv'] show ?thesis
        by blast
    qed
  qed
qed

lemma replicate_10: "replicate 10 x = [x, x, x, x, x, x, x, x, x, x]"
  by (simp add: eval_nat_numeral)

text \<open>
  \<open>pipe_lines\<close> with \<open>BUFSIZ = 2\<close> and one line asked for: after \<open>k\<close> reads of two bytes
  without a delimiter the list holds them all, and \<open>k\<close> reads of two delimiters then
  recycle the \<open>k\<close> heads that hold no line and leave \<open>2 * k\<close> lines in the list.
\<close>

lemma take_le_append: "j \<le> length xs \<Longrightarrow> take j (xs @ ys) = take j xs"
  by simp

lemma read_long_line:
  "list_all (\<lambda>b. nlines b = 0) (front @ [lst]) \<Longrightarrow>
     \<exists>front' lst'.
        pipe_lines_read 2 CHR 0x0A 1 (replicate k (Data ''aa'') @ s) (front, lst, 0) rp =
          pipe_lines_read 2 CHR 0x0A 1 s (front', lst', 0) (rp + 2 * k) \<and>
        length front' = length front + k \<and> list_all (\<lambda>b. nlines b = 0) (front' @ [lst'])"
proof (induction k arbitrary: front lst rp)
  case 0
  then show ?case by auto
next
  case (Suc k)
  let ?A = "\<lparr>buffer = ''aa'', nlines = 0\<rparr>"
  have step: "pipe_lines_read 2 CHR 0x0A 1 (replicate (Suc k) (Data ''aa'') @ s) (front, lst, 0) rp =
               pipe_lines_read 2 CHR 0x0A 1 (replicate k (Data ''aa'') @ s)
                 (front @ [lst], ?A, 0) (rp + 2)"
    by (subst pipe_lines_read.simps) (simp add: pipe_lines_add_def count_newlines.simps Let_def)
  have "list_all (\<lambda>b. nlines b = 0) ((front @ [lst]) @ [?A])" using Suc.prems by simp
  from Suc.IH [OF this, of "rp + 2"] obtain front' lst' where
    r: "pipe_lines_read 2 CHR 0x0A 1 (replicate k (Data ''aa'') @ s) (front @ [lst], ?A, 0) (rp + 2) =
       pipe_lines_read 2 CHR 0x0A 1 s (front', lst', 0) (rp + 2 + 2 * k)"
    and l: "length front' = length (front @ [lst]) + k"
    and z: "list_all (\<lambda>b. nlines b = 0) (front' @ [lst'])" by blast
  have "pipe_lines_read 2 CHR 0x0A 1 (replicate (Suc k) (Data ''aa'') @ s) (front, lst, 0) rp =
          pipe_lines_read 2 CHR 0x0A 1 s (front', lst', 0) (rp + 2 * Suc k)"
    using step r by (simp add: add.assoc)
  moreover have "length front' = length front + Suc k" using l by simp
  ultimately show ?case using z by blast
qed

lemma read_short_lines:
  "j \<le> length front \<Longrightarrow> list_all (\<lambda>b. nlines b = 0) (take j (front @ [lst])) \<Longrightarrow>
     snd (snd (fst (snd (pipe_lines_read 2 CHR 0x0A 1 (replicate j (Data ''\<newline>\<newline>''))
                           (front, lst, t) rp)))) = t + 2 * j"
proof (induction j arbitrary: front lst t rp)
  case 0
  then show ?case by (simp add: pipe_lines_read.simps)
next
  case (Suc j)
  then obtain h front' where f: "front = h # front'" by (cases front) auto
  let ?N = "\<lparr>buffer = ''\<newline>\<newline>'', nlines = 2\<rparr>"
  from Suc.prems f have h: "nlines h = 0" by simp
  have step: "pipe_lines_read 2 CHR 0x0A 1 (replicate (Suc j) (Data ''\<newline>\<newline>'')) (front, lst, t) rp =
               pipe_lines_read 2 CHR 0x0A 1 (replicate j (Data ''\<newline>\<newline>''))
                 (front' @ [lst], ?N, t + 2) (rp + 2)"
    using f h
    by (subst pipe_lines_read.simps)
       (simp add: pipe_lines_add_def count_newlines.simps Let_def numeral_2_eq_2)
  have j: "j \<le> length (front' @ [lst])" using Suc.prems(1) f by simp
  have "list_all (\<lambda>b. nlines b = 0) (take j (front' @ [lst]))"
    using Suc.prems(2) f by simp
  then have "list_all (\<lambda>b. nlines b = 0) (take j ((front' @ [lst]) @ [?N]))"
    by (simp only: take_le_append [OF j])
  from Suc.IH [OF j this, of "t + 2" "rp + 2"] step show ?case
    by simp
qed

lemma pipe_lines_keeps_short_lines:
  "snd (snd (fst (snd (pipe_lines_read 2 CHR 0x0A 1
       (replicate k (Data ''aa'') @ replicate k (Data ''\<newline>\<newline>''))
       ([], \<lparr>buffer = [], nlines = 0\<rparr>, 0) rp)))) = 2 * k"
proof -
  have "list_all (\<lambda>b. nlines b = 0) ([] @ [\<lparr>buffer = [], nlines = 0\<rparr>])" by simp
  from read_long_line [OF this, of k "replicate k (Data ''\<newline>\<newline>'')" rp]
  obtain front' lst' where
    r: "pipe_lines_read 2 CHR 0x0A 1 (replicate k (Data ''aa'') @ replicate k (Data ''\<newline>\<newline>''))
          ([], \<lparr>buffer = [], nlines = 0\<rparr>, 0) rp =
        pipe_lines_read 2 CHR 0x0A 1 (replicate k (Data ''\<newline>\<newline>'')) (front', lst', 0) (rp + 2 * k)"
    and l: "length front' = k" and z: "list_all (\<lambda>b. nlines b = 0) (front' @ [lst'])"
    by auto
  have "list_all (\<lambda>b. nlines b = 0) (take k (front' @ [lst']))"
    using z l by simp
  from read_short_lines [OF _ this, of 0 "rp + 2 * k"] l r show ?thesis by simp
qed

lemma pipe_lines_keeps_long_line:
  "length (fst (fst (snd (pipe_lines_read 2 CHR 0x0A 1 (replicate k (Data ''aa''))
       ([], \<lparr>buffer = [], nlines = 0\<rparr>, 0) rp)))) = k"
proof -
  have "list_all (\<lambda>b. nlines b = 0) ([] @ [\<lparr>buffer = [], nlines = 0\<rparr>])" by simp
  from read_long_line [OF this, of k "[]" rp]
  show ?thesis by (auto simp: pipe_lines_read.simps)
qed


text \<open>
  One iteration of the read loops, as a relation between the state before and the state
  after: the read was appended to the last buffer, which stays below \<open>BUFSIZ\<close> bytes; or
  the buffer was linked and the head kept, dropping the head leaving at most \<open>N\<close> units; or
  the buffer was linked and the head recycled, more than \<open>N\<close> units remaining.
\<close>

definition lines_step ::
  "nat \<Rightarrow> nat \<Rightarrow> (linebuffer list \<times> linebuffer \<times> nat) \<times> (linebuffer list \<times> linebuffer \<times> nat)
     \<Rightarrow> bool" where
  "lines_step B N p =
     (case p of ((front, lst, t), (front', lst', t')) \<Rightarrow>
        front' = front \<and> (\<exists>buf. buffer lst' = buffer lst @ buf) \<and> length (buffer lst') < B \<or>
        front' = front @ [lst] \<and> B \<le> length (buffer lst) + length (buffer lst') \<and>
          t' - nlines (hd (front @ [lst])) \<le> N \<or>
        front' = tl (front @ [lst]) \<and> B \<le> length (buffer lst) + length (buffer lst') \<and>
          N < t' \<and>
          t' + nlines (hd (front @ [lst])) = t + nlines lst')"

definition bytes_step ::
  "nat \<Rightarrow> nat \<Rightarrow> (bytes list \<times> bytes \<times> nat) \<times> (bytes list \<times> bytes \<times> nat) \<Rightarrow> bool" where
  "bytes_step B N p =
     (case p of ((front, lst, t), (front', lst', t')) \<Rightarrow>
        front' = front \<and> (\<exists>buf. lst' = lst @ buf) \<and> length lst' < B \<or>
        front' = front @ [lst] \<and> B \<le> length lst + length lst' \<and>
          t' - length (hd (front @ [lst])) \<le> N \<or>
        front' = tl (front @ [lst]) \<and> B \<le> length lst + length lst' \<and> N < t' \<and>
          t' + length (hd (front @ [lst])) = t + length lst')"

lemma pipe_lines_add_step: "lines_step B N (st, pipe_lines_add B d N st buf)"
proof -
  obtain front lst t where st: "st = (front, lst, t)" by (cases st) auto
  show ?thesis
    unfolding st by (auto simp: lines_step_def pipe_lines_add_def Let_def)
qed

lemma pipe_bytes_add_step: "bytes_step B N (st, pipe_bytes_add B N st buf)"
proof -
  obtain front lst t where st: "st = (front, lst, t)" by (cases st) auto
  show ?thesis
    unfolding st by (auto simp: bytes_step_def pipe_bytes_add_def Let_def)
qed

lemma pipe_lines_states_step:
  "p \<in> set (zip (st # pipe_lines_states B d N s st) (pipe_lines_states B d N s st)) \<Longrightarrow>
     lines_step B N p"
proof (induction B d N s st rule: pipe_lines_states.induct)
  case (1 B d N s st)
  obtain r s1 where sr: "safe_read s B = (r, s1)" by (cases "safe_read s B") auto
  show ?case
  proof (cases r)
    case (Inl e)
    with sr "1.prems" show ?thesis
      by (subst (asm) (1 2) pipe_lines_states.simps) simp
  next
    case (Inr buf)
    show ?thesis
    proof (cases "buf = []")
      case True
      with sr Inr "1.prems" show ?thesis
        by (subst (asm) (1 2) pipe_lines_states.simps) simp
    next
      case False
      let ?st1 = "pipe_lines_add B d N st buf"
      have e: "pipe_lines_states B d N s st = ?st1 # pipe_lines_states B d N s1 ?st1"
        using sr Inr False by (subst pipe_lines_states.simps) simp
      from "1.prems" have
        "p = (st, ?st1) \<or>
         p \<in> set (zip (?st1 # pipe_lines_states B d N s1 ?st1) (pipe_lines_states B d N s1 ?st1))"
        unfolding e by simp
      with pipe_lines_add_step [of B N st d buf] "1.IH" [OF sr [symmetric] Inr False]
      show ?thesis by blast
    qed
  qed
qed

lemma pipe_bytes_states_step:
  "p \<in> set (zip (st # pipe_bytes_states B N s st) (pipe_bytes_states B N s st)) \<Longrightarrow>
     bytes_step B N p"
proof (induction B N s st rule: pipe_bytes_states.induct)
  case (1 B N s st)
  obtain r s1 where sr: "safe_read s B = (r, s1)" by (cases "safe_read s B") auto
  show ?case
  proof (cases r)
    case (Inl e)
    with sr "1.prems" show ?thesis
      by (subst (asm) (1 2) pipe_bytes_states.simps) simp
  next
    case (Inr buf)
    show ?thesis
    proof (cases "buf = []")
      case True
      with sr Inr "1.prems" show ?thesis
        by (subst (asm) (1 2) pipe_bytes_states.simps) simp
    next
      case False
      let ?st1 = "pipe_bytes_add B N st buf"
      have e: "pipe_bytes_states B N s st = ?st1 # pipe_bytes_states B N s1 ?st1"
        using sr Inr False by (subst pipe_bytes_states.simps) simp
      from "1.prems" have
        "p = (st, ?st1) \<or>
         p \<in> set (zip (?st1 # pipe_bytes_states B N s1 ?st1) (pipe_bytes_states B N s1 ?st1))"
        unfolding e by simp
      with pipe_bytes_add_step [of B N st buf] "1.IH" [OF sr [symmetric] Inr False]
      show ?thesis by blast
    qed
  qed
qed

subsection \<open>C7: the bytes and lines the ring retains\<close>

text \<open>
  C7 (as the code has it). At the end of every iteration of the read loop of
  \<open>pipe_bytes\<close> with \<open>N\<close> bytes asked for, the list holds \<open>total_bytes\<close> bytes, at most
  \<open>2 * N + 2 * BUFSIZ\<close>, in at most \<open>2 * (N div BUFSIZ) + 2\<close> buffers of at most \<open>BUFSIZ\<close>
  bytes each, whatever the input and the sizes of the reads; the state the loop ends with is
  the last of these. At the end of every iteration of the read loop of \<open>pipe_lines\<close> every
  buffer of the list holds at most \<open>BUFSIZ\<close> bytes, its \<open>nlines\<close> is the number of delimiters
  in it, and \<open>total_lines\<close> is the sum of the \<open>nlines\<close> of the list. In both loops every
  iteration does one of three things: it appends the read to the last buffer, which stays
  below \<open>BUFSIZ\<close> bytes; or the read does not fit, the buffer is linked and the head is
  kept, dropping the head leaving at most \<open>N\<close> units; or the read does not fit, the buffer
  is linked and the head, and only the head, is recycled, more than \<open>N\<close> units remaining
  in the list.
\<close>

theorem ring_retention:
  assumes "0 < B"
  shows "(\<forall>(front, lst, total_bytes) \<in> set (pipe_bytes_states B N s ([], [], 0)).
            total_bytes = length (concat (front @ [lst])) \<and>
            total_bytes \<le> 2 * N + 2 * B \<and>
            length (front @ [lst]) \<le> 2 * (N div B) + 2 \<and>
            list_all (\<lambda>b. length b \<le> B) (front @ [lst])) \<and>
         fst (snd (pipe_bytes_read B N s ([], [], 0) rp)) =
            last (([], [], 0) # pipe_bytes_states B N s ([], [], 0)) \<and>
         (\<forall>(front, lst, total_lines) \<in>
              set (pipe_lines_states B d N s ([], \<lparr>buffer = [], nlines = 0\<rparr>, 0)).
            list_all (\<lambda>b. length (buffer b) \<le> B \<and> nlines b = count_list (buffer b) d)
              (front @ [lst]) \<and>
            total_lines = sum_list (map nlines (front @ [lst]))) \<and>
         fst (snd (pipe_lines_read B d N s ([], \<lparr>buffer = [], nlines = 0\<rparr>, 0) rp)) =
            last (([], \<lparr>buffer = [], nlines = 0\<rparr>, 0) #
                  pipe_lines_states B d N s ([], \<lparr>buffer = [], nlines = 0\<rparr>, 0)) \<and>
         (\<forall>((front, lst, total_bytes), (front', lst', total_bytes')) \<in>
              set (zip (([], [], 0) # pipe_bytes_states B N s ([], [], 0))
                       (pipe_bytes_states B N s ([], [], 0))).
            front' = front \<and> (\<exists>buf. lst' = lst @ buf) \<and> length lst' < B \<or>
            front' = front @ [lst] \<and> B \<le> length lst + length lst' \<and>
              total_bytes' - length (hd (front @ [lst])) \<le> N \<or>
            front' = tl (front @ [lst]) \<and> B \<le> length lst + length lst' \<and>
              N < total_bytes' \<and>
              total_bytes' + length (hd (front @ [lst])) = total_bytes + length lst') \<and>
         (\<forall>((front, lst, total_lines), (front', lst', total_lines')) \<in>
              set (zip (([], \<lparr>buffer = [], nlines = 0\<rparr>, 0) #
                          pipe_lines_states B d N s ([], \<lparr>buffer = [], nlines = 0\<rparr>, 0))
                       (pipe_lines_states B d N s ([], \<lparr>buffer = [], nlines = 0\<rparr>, 0))).
            front' = front \<and> (\<exists>buf. buffer lst' = buffer lst @ buf) \<and>
              length (buffer lst') < B \<or>
            front' = front @ [lst] \<and> B \<le> length (buffer lst) + length (buffer lst') \<and>
              total_lines' - nlines (hd (front @ [lst])) \<le> N \<or>
            front' = tl (front @ [lst]) \<and> B \<le> length (buffer lst) + length (buffer lst') \<and>
              N < total_lines' \<and>
              total_lines' + nlines (hd (front @ [lst])) = total_lines + nlines lst')"
proof (intro conjI ballI, goal_cases)
  case (1 st)
  from pipe_bytes_states_inv [OF bytes_inv_init assms 1]
  have i: "bytes_inv B N st" .
  obtain front lst tot where st: "st = (front, lst, tot)" by (cases st) auto
  from bytes_inv_bound [OF i [unfolded st] assms] st
  show ?case by simp
next
  case 2
  show ?case by (rule pipe_bytes_read_states)
next
  case (3 st)
  have "lines_shape B d ([], \<lparr>buffer = [], nlines = 0\<rparr>, 0)"
    by (simp add: lines_shape_def)
  from pipe_lines_states_shape [OF this 3]
  show ?case by (simp add: lines_shape_def)
next
  case 4
  show ?case by (rule pipe_lines_read_states)
next
  case (5 p)
  from pipe_bytes_states_step [OF 5]
  show ?case by (auto simp: bytes_step_def)
next
  case (6 p)
  from pipe_lines_states_step [OF 6]
  show ?case by (auto simp: lines_step_def)
qed


theorem ring_retention_witness:
  "pipe_bytes_states 2 8 (replicate 10 (Data ''a'') @ replicate 10 (Data ''bc'')) ([], [], 0)
     \<noteq> [] \<and>
   snd (snd (fst (snd (pipe_bytes_read 2 8
       (replicate 10 (Data ''a'') @ replicate 10 (Data ''bc'')) ([], [], 0) 0)))) = 18 \<and>
   (18::nat) \<le> 2 * 8 + 2 * 2 \<and>
   length (fst (fst (snd (pipe_bytes_read 2 8
       (replicate 10 (Data ''a'') @ replicate 10 (Data ''bc'')) ([], [], 0) 0)))) + 1 = 9 \<and>
   (9::nat) \<le> 2 * (8 div 2) + 2"
  using ring_retention [of 2 8 "replicate 10 (Data ''a'') @ replicate 10 (Data ''bc'')" 0
      "CHR 0x0A"]
  by (simp add: replicate_10 pipe_bytes_read.simps pipe_bytes_states.simps pipe_bytes_add_def
      Let_def)

text \<open>
  With \<open>BUFSIZ = 2\<close> and one line asked for, \<open>pipe_lines\<close> ends its read loop with 100
  lines in the list after 50 reads of \<open>aa\<close> and 50 reads of two delimiters, and with 51
  buffers after 50 reads of \<open>aa\<close>. With \<open>BUFSIZ = 2\<close> and 8 bytes asked for,
  \<open>pipe_bytes\<close> ends with 18 bytes in the list after 10 reads of one byte and 10 reads of
  two bytes.
\<close>

theorem ring_retention_counterexample:
  "snd (snd (fst (snd (pipe_lines_read 2 CHR 0x0A 1
       (replicate 50 (Data ''aa'') @ replicate 50 (Data ''\<newline>\<newline>''))
       ([], \<lparr>buffer = [], nlines = 0\<rparr>, 0) 0)))) = 100 \<and>
   1 + 49 * 2 < (100::nat) \<and>
   length (fst (fst (snd (pipe_lines_read 2 CHR 0x0A 1 (replicate 50 (Data ''aa''))
       ([], \<lparr>buffer = [], nlines = 0\<rparr>, 0) 0)))) + 1 = 51 \<and>
   snd (snd (fst (snd (pipe_bytes_read 2 8
       (replicate 10 (Data ''a'') @ replicate 10 (Data ''bc'')) ([], [], 0) 0)))) = 18 \<and>
   8 + 4 * 2 < (18::nat)"
  using pipe_lines_keeps_short_lines [of 50 0] pipe_lines_keeps_long_line [of 50 0]
  by (simp add: replicate_10 pipe_bytes_read.simps pipe_bytes_add_def Let_def)

end
